theory Spec2Isabelle
  imports Main "HOL-Library.Word" "HOL-Library.Sublist" "HOL-Library.AList"
begin

section \<open>Bytes, text encodings and the key derivation of hashlib\<close>

text \<open>
  \<^verbatim>\<open>folder_lock.py\<close> hashes passwords with
  \<^verbatim>\<open>hashlib.pbkdf2_hmac('sha256', password.encode('utf-8'), salt.encode('utf-8'), 100000)\<close>.
  The library function is embedded as it is specified (SHA-256 of FIPS 180-4, HMAC of
  RFC 2104, PBKDF2 of RFC 8018 with one output block of 32 bytes, which is what
  \<^verbatim>\<open>dklen=None\<close> asks for), so that \<open>hash_password\<close> below is a closed function.
  A Python \<^verbatim>\<open>str\<close> is a \<^typ>\<open>string\<close>: one \<^typ>\<open>char\<close> per code point,
  code points 0 to 255; \<^verbatim>\<open>len\<close> is \<^const>\<open>length\<close>.
\<close>

unbundle bit_operations_syntax

type_synonym byte = "8 word"
type_synonym bytes = "byte list"

definition hex_digits :: string where
  "hex_digits = ''0123456789abcdef''"

definition hex_byte :: "byte \<Rightarrow> string" where
  "hex_byte b = [hex_digits ! (unat b div 16), hex_digits ! (unat b mod 16)]"

definition hex :: "bytes \<Rightarrow> string" where
  "hex bs = concat (map hex_byte bs)"

definition encode_char :: "char \<Rightarrow> bytes" where
  "encode_char c =
     (let n = (of_char c :: nat) in
      if n < 128 then [of_nat n]
      else [of_nat (192 + n div 64), of_nat (128 + n mod 64)])"

definition encode_utf8 :: "string \<Rightarrow> bytes" where
  "encode_utf8 s = concat (map encode_char s)"

text \<open>
  The constants of SHA-256 are the first 32 bits of the fractional parts of the cube roots
  (for the rounds) and of the square roots (for the initial state) of the first primes.
  \<open>iroot_bits k n r i\<close> adds to \<open>r\<close>, from bit \<open>i - 1\<close> down, every bit that keeps
  its \<open>k\<close>-th power at most \<open>n\<close>.
\<close>

fun iroot_bits :: "nat \<Rightarrow> int \<Rightarrow> int \<Rightarrow> nat \<Rightarrow> int" where
  "iroot_bits k n r 0 = r"
| "iroot_bits k n r (Suc i) =
     (let r' = r + 2 ^ i in iroot_bits k n (if r' ^ k \<le> n then r' else r) i)"

definition first_primes :: "nat list" where
  "first_primes = filter (\<lambda>p. list_all (\<lambda>d. p mod d \<noteq> 0) [2..<p]) [2..<312]"

definition sha256_k :: "32 word list" where
  "sha256_k = map (\<lambda>p. word_of_int (iroot_bits 3 (int p * 2 ^ 96) 0 40)) first_primes"

definition sha256_init :: "32 word list" where
  "sha256_init = map (\<lambda>p. word_of_int (iroot_bits 2 (int p * 2 ^ 64) 0 40)) (take 8 first_primes)"

definition be_bytes32 :: "32 word \<Rightarrow> bytes" where
  "be_bytes32 w = [ucast (drop_bit 24 w), ucast (drop_bit 16 w), ucast (drop_bit 8 w), ucast w]"

definition be_bytes64 :: "64 word \<Rightarrow> bytes" where
  "be_bytes64 w = be_bytes32 (ucast (drop_bit 32 w)) @ be_bytes32 (ucast w)"

definition be_word :: "bytes \<Rightarrow> 32 word" where
  "be_word bs = foldl (\<lambda>acc b. push_bit 8 acc OR ucast b) 0 bs"

definition sha256_pad :: "bytes \<Rightarrow> bytes" where
  "sha256_pad msg =
     msg @ [0x80] @ replicate ((119 - length msg mod 64) mod 64) 0 @ be_bytes64 (of_nat (8 * length msg))"

fun chunks :: "nat \<Rightarrow> 'a list \<Rightarrow> 'a list list" where
  "chunks n xs = (if n = 0 \<or> xs = [] then [] else take n xs # chunks n (drop n xs))"

declare chunks.simps [simp del]

fun schedule :: "nat \<Rightarrow> 32 word list \<Rightarrow> 32 word list" where
  "schedule 0 w = w"
| "schedule (Suc n) w =
     (let t = length w;
          s0 = word_rotr 7 (w ! (t - 15)) XOR word_rotr 18 (w ! (t - 15)) XOR drop_bit 3 (w ! (t - 15));
          s1 = word_rotr 17 (w ! (t - 2)) XOR word_rotr 19 (w ! (t - 2)) XOR drop_bit 10 (w ! (t - 2))
      in schedule n (w @ [w ! (t - 16) + s0 + w ! (t - 7) + s1]))"

definition sha256_round :: "32 word list \<Rightarrow> 32 word \<times> 32 word \<Rightarrow> 32 word list" where
  "sha256_round v kw =
     (case v of [a, b, c, d, e, f, g, h] \<Rightarrow>
        let s1 = word_rotr 6 e XOR word_rotr 11 e XOR word_rotr 25 e;
            ch = (e AND f) XOR (NOT e AND g);
            t1 = h + s1 + ch + fst kw + snd kw;
            s0 = word_rotr 2 a XOR word_rotr 13 a XOR word_rotr 22 a;
            maj = (a AND b) XOR (a AND c) XOR (b AND c);
            t2 = s0 + maj
        in [t1 + t2, a, b, c, d + t1, e, f, g]
      | _ \<Rightarrow> v)"

definition sha256_block :: "32 word list \<Rightarrow> bytes \<Rightarrow> 32 word list" where
  "sha256_block h block =
     (let w = schedule 48 (map be_word (chunks 4 block))
      in map2 (+) h (foldl sha256_round h (zip sha256_k w)))"

definition sha256 :: "bytes \<Rightarrow> bytes" where
  "sha256 msg =
     concat (map be_bytes32 (foldl sha256_block sha256_init (chunks 64 (sha256_pad msg))))"



definition hmac_key :: "bytes \<Rightarrow> bytes" where
  "hmac_key key =
     (let k = (if length key > 64 then sha256 key else key)
      in k @ replicate (64 - length k) 0)"

definition hmac_sha256 :: "bytes \<Rightarrow> bytes \<Rightarrow> bytes" where
  "hmac_sha256 key msg =
     (let k = hmac_key key
      in sha256 (map (\<lambda>b. b XOR 0x5c) k @ sha256 (map (\<lambda>b. b XOR 0x36) k @ msg)))"

fun pbkdf2_rounds :: "bytes \<Rightarrow> nat \<Rightarrow> bytes \<Rightarrow> bytes \<Rightarrow> bytes" where
  "pbkdf2_rounds password 0 u t = t"
| "pbkdf2_rounds password (Suc n) u t =
     (let u' = hmac_sha256 password u
      in pbkdf2_rounds password n u' (map2 (XOR) t u'))"

definition pbkdf2_hmac_sha256 :: "bytes \<Rightarrow> bytes \<Rightarrow> nat \<Rightarrow> bytes" where
  "pbkdf2_hmac_sha256 password salt iterations =
     (let u1 = hmac_sha256 password (salt @ [0, 0, 0, 1])
      in pbkdf2_rounds password (iterations - 1) u1 u1)"

section \<open>Credentials\<close>

text \<open>
  The dictionary \<^verbatim>\<open>{'salt': ..., 'hash': ...}\<close> that \<^verbatim>\<open>hash_password\<close> returns and
  the credential files hold.
\<close>

record credential =
  salt :: string
  hash :: string

text \<open>
  The operating system's random bytes are an input of the model: an \<open>entropy\<close> is the
  sequence of bytes that one call of \<^verbatim>\<open>os.urandom\<close> draws from.
\<close>

type_synonym entropy = "nat \<Rightarrow> byte"

definition os_urandom :: "entropy \<Rightarrow> nat \<Rightarrow> bytes" where
  "os_urandom src n = map src [0..<n]"

text \<open>\<^verbatim>\<open>generate_salt\<close>: \<^verbatim>\<open>os.urandom(32).hex()\<close>.\<close>

definition generate_salt :: "entropy \<Rightarrow> string" where
  "generate_salt src = hex (os_urandom src 32)"

text \<open>
  \<^verbatim>\<open>hash_password(password, salt=None)\<close>. Random bytes are drawn only when no salt is
  given.
\<close>

definition hash_password :: "entropy \<Rightarrow> string \<Rightarrow> string option \<Rightarrow> credential" where
  "hash_password src password salt_arg =
     (let s = (case salt_arg of None \<Rightarrow> generate_salt src | Some s' \<Rightarrow> s');
          hash_obj = pbkdf2_hmac_sha256 (encode_utf8 password) (encode_utf8 s) 100000
      in \<lparr>salt = s, hash = hex hash_obj\<rparr>)"

text \<open>\<^verbatim>\<open>verify_password(password, stored_data)\<close>; the salt is given, so nothing is drawn.\<close>

definition verify_password :: "string \<Rightarrow> credential \<Rightarrow> bool" where
  "verify_password password stored_data =
     (let result = hash_password (\<lambda>i. 0) password (Some (salt stored_data))
      in hash result = hash stored_data)"

section \<open>The file system\<close>

text \<open>
  An absolute path is the list of its components below the root; the root is \<open>[]\<close>.
  The file system is the list of the paths that exist, each with its node, in the order in
  which \<^verbatim>\<open>os.listdir\<close> reports them; the root is always a directory and is not listed.
  A file holds what \<^verbatim>\<open>json.load\<close> would read from it: a credential, a registry, or
  something that is no JSON of the tool's (an empty file, which is what \<^verbatim>\<open>open(f, 'w')\<close>
  leaves before anything is written, or other data). There are no symbolic links and there
  is one device. A path is looked up as it is written: the components are names of
  entries, and a component \<open>..\<close>, which \<^verbatim>\<open>Path.absolute\<close> keeps and the operating
  system resolves, is not resolved here, so the model speaks about paths without such
  components.
\<close>

type_synonym path = "string list"

record lock_entry =
  hidden_path :: path
  locked_at :: string
  items_count :: nat

type_synonym registry = "(path \<times> lock_entry) list"

datatype content =
    Empty_file
  | Credential_json credential
  | Registry_json registry
  | Other_data nat

datatype node = Dir | File content

type_synonym filesystem = "(path \<times> node) list"

datatype py_exception =
    FileNotFoundError
  | FileExistsError
  | IsADirectoryError
  | NotADirectoryError
  | OSError
  | ShutilError
  | JSONDecodeError
  | KeyError
  | EOFError
  | ValueError

definition lookup :: "filesystem \<Rightarrow> path \<Rightarrow> node option" where
  "lookup fs p = (if p = [] then Some Dir else map_of fs p)"

definition path_exists :: "filesystem \<Rightarrow> path \<Rightarrow> bool" where
  "path_exists fs p = (lookup fs p \<noteq> None)"

definition is_dir :: "filesystem \<Rightarrow> path \<Rightarrow> bool" where
  "is_dir fs p = (lookup fs p = Some Dir)"

text \<open>\<^verbatim>\<open>Path.name\<close>: the last component, empty for the root.\<close>

definition pathname :: "path \<Rightarrow> string" where
  "pathname p = (if p = [] then [] else last p)"

definition children :: "filesystem \<Rightarrow> path \<Rightarrow> string list" where
  "children fs p = map (\<lambda>(q, n). last q) (filter (\<lambda>(q, n). q \<noteq> [] \<and> butlast q = p) fs)"

text \<open>\<^verbatim>\<open>Path.iterdir\<close>, which lists the directory when the loop starts.\<close>

definition iterdir :: "path \<Rightarrow> filesystem \<Rightarrow> py_exception + string list" where
  "iterdir p fs =
     (if \<not> path_exists fs p then Inl FileNotFoundError
      else if \<not> is_dir fs p then Inl NotADirectoryError
      else Inr (children fs p))"

text \<open>\<^verbatim>\<open>Path.mkdir(exist_ok=...)\<close>, with \<^verbatim>\<open>parents=False\<close>.\<close>

definition mkdir :: "path \<Rightarrow> bool \<Rightarrow> filesystem \<Rightarrow> py_exception + filesystem" where
  "mkdir p exist_ok fs =
     (if path_exists fs p then
        (if exist_ok \<and> is_dir fs p then Inr fs else Inl FileExistsError)
      else if \<not> path_exists fs (butlast p) then Inl FileNotFoundError
      else if \<not> is_dir fs (butlast p) then Inl NotADirectoryError
      else Inr (fs @ [(p, Dir)]))"

text \<open>\<^verbatim>\<open>Path.rmdir\<close>: only an empty directory other than the root is removed.\<close>

definition rmdir :: "path \<Rightarrow> filesystem \<Rightarrow> py_exception + filesystem" where
  "rmdir p fs =
     (if \<not> path_exists fs p then Inl FileNotFoundError
      else if \<not> is_dir fs p then Inl NotADirectoryError
      else if p = [] \<or> children fs p \<noteq> [] then Inl OSError
      else Inr (AList.delete p fs))"

text \<open>
  Moving a subtree: every path at or below \<open>src\<close> gets the prefix \<open>dst\<close> instead.
\<close>

definition reprefix :: "path \<Rightarrow> path \<Rightarrow> path \<Rightarrow> path" where
  "reprefix src dst p = (if prefix src p then dst @ drop (length src) p else p)"

definition rename_tree :: "path \<Rightarrow> path \<Rightarrow> filesystem \<Rightarrow> filesystem" where
  "rename_tree src dst fs = map (\<lambda>(p, n). (reprefix src dst p, n)) fs"

text \<open>
  \<^verbatim>\<open>os.rename(src, dst)\<close> as POSIX has it: the source must exist, a directory cannot go
  below itself, the target's parent must be a directory, and an existing target is replaced
  only by a node of its own kind (a directory only when it is empty).
\<close>

definition os_rename :: "path \<Rightarrow> path \<Rightarrow> filesystem \<Rightarrow> py_exception + filesystem" where
  "os_rename src dst fs =
     (if \<not> path_exists fs src then Inl FileNotFoundError
      else if src = dst then Inr fs
      else if src = [] \<or> dst = [] \<or> prefix src dst then Inl OSError
      else if \<not> path_exists fs (butlast dst) then Inl FileNotFoundError
      else if \<not> is_dir fs (butlast dst) then Inl NotADirectoryError
      else (case lookup fs dst of
              None \<Rightarrow> Inr (rename_tree src dst fs)
            | Some Dir \<Rightarrow>
                (if \<not> is_dir fs src then Inl IsADirectoryError
                 else if children fs dst \<noteq> [] then Inl OSError
                 else Inr (rename_tree src dst (AList.delete dst fs)))
            | Some (File c) \<Rightarrow>
                (if is_dir fs src then Inl NotADirectoryError
                 else Inr (rename_tree src dst (AList.delete dst fs)))))"

text \<open>
  \<^verbatim>\<open>shutil.move(src, dst)\<close>. Into an existing directory the item keeps its name; a
  directory "moved" onto itself is renamed onto itself, which does nothing; an existing
  target inside the directory is an error. Whenever \<^verbatim>\<open>os.rename\<close> fails here, on one
  device, the library's fall-back (copy, then delete) fails as well, or reports that a
  directory cannot be moved into itself. The tool always passes a directory that exists as
  \<open>dst\<close>; for another \<open>dst\<close> only the plain rename is modelled.
\<close>

definition shutil_move :: "path \<Rightarrow> path \<Rightarrow> filesystem \<Rightarrow> py_exception + filesystem" where
  "shutil_move src dst fs =
     (if is_dir fs dst then
        (if src = dst then os_rename src dst fs
         else if path_exists fs (dst @ [pathname src]) then Inl ShutilError
         else os_rename src (dst @ [pathname src]) fs)
      else os_rename src dst fs)"

text \<open>
  \<^verbatim>\<open>open(p, 'r')\<close> followed by reading the whole file.
\<close>

definition read_file :: "path \<Rightarrow> filesystem \<Rightarrow> py_exception + content" where
  "read_file p fs =
     (case lookup fs p of
        None \<Rightarrow> Inl FileNotFoundError
      | Some Dir \<Rightarrow> Inl IsADirectoryError
      | Some (File c) \<Rightarrow> Inr c)"

text \<open>
  \<^verbatim>\<open>open(p, 'w')\<close>: the file is created, or cut to length zero when it exists. This is
  the first of the two steps of every write of the tool.
\<close>

definition open_w :: "path \<Rightarrow> filesystem \<Rightarrow> py_exception + filesystem" where
  "open_w p fs =
     (case lookup fs p of
        Some Dir \<Rightarrow> Inl IsADirectoryError
      | Some (File c) \<Rightarrow> Inr (AList.update p (File Empty_file) fs)
      | None \<Rightarrow>
          (if \<not> path_exists fs (butlast p) then Inl FileNotFoundError
           else if \<not> is_dir fs (butlast p) then Inl NotADirectoryError
           else Inr (AList.update p (File Empty_file) fs)))"

text \<open>
  \<^verbatim>\<open>json.dump(obj, f)\<close> and the close of the file: the second step, which writes the
  text into the file opened at \<open>p\<close>.
\<close>

definition json_dump :: "content \<Rightarrow> path \<Rightarrow> filesystem \<Rightarrow> filesystem" where
  "json_dump obj p fs = AList.update p (File obj) fs"

text \<open>
  \<^verbatim>\<open>with open(p, 'w') as f: json.dump(obj, f)\<close>. \<open>write_json_trace\<close> lists the states
  of the file system the statement passes through, the state a stopped process leaves being
  one of them.
\<close>

definition write_json :: "path \<Rightarrow> content \<Rightarrow> filesystem \<Rightarrow> py_exception + filesystem" where
  "write_json p obj fs =
     (case open_w p fs of
        Inl e \<Rightarrow> Inl e
      | Inr fs' \<Rightarrow> Inr (json_dump obj p fs'))"

definition write_json_trace :: "path \<Rightarrow> content \<Rightarrow> filesystem \<Rightarrow> filesystem list" where
  "write_json_trace p obj fs =
     (case open_w p fs of
        Inl e \<Rightarrow> [fs]
      | Inr fs' \<Rightarrow> [fs, fs', json_dump obj p fs'])"

text \<open>
  \<^verbatim>\<open>json.load\<close> of a credential file and of the registry file, together with the
  first access to the object loaded. The files are typed: a credential file that holds a
  registry has no key \<^verbatim>\<open>salt\<close>, which \<^verbatim>\<open>verify_password\<close> asks for at once; a
  registry file that holds a credential is given the same exception here, although the
  source goes on with the two strings as entries until it reads one of them as an entry.
  The tool itself never writes such a file.
\<close>

definition load_credential :: "path \<Rightarrow> filesystem \<Rightarrow> py_exception + credential" where
  "load_credential p fs =
     (case read_file p fs of
        Inl e \<Rightarrow> Inl e
      | Inr (Credential_json c) \<Rightarrow> Inr c
      | Inr (Registry_json r) \<Rightarrow> Inl KeyError
      | Inr x \<Rightarrow> Inl JSONDecodeError)"

definition load_registry :: "path \<Rightarrow> filesystem \<Rightarrow> py_exception + registry" where
  "load_registry p fs =
     (case read_file p fs of
        Inl e \<Rightarrow> Inl e
      | Inr (Registry_json r) \<Rightarrow> Inr r
      | Inr (Credential_json c) \<Rightarrow> Inl KeyError
      | Inr x \<Rightarrow> Inl JSONDecodeError)"

section \<open>The tool\<close>

text \<open>
  What a method returns, and what it prints. A method ends by returning a value or with an
  exception that nothing in the class catches (\<^verbatim>\<open>main\<close> reports it and exits with
  status 1). Every operation gives the outcome, the messages printed and the file system
  as it is left.
\<close>

datatype 'a outcome = Returned 'a | Raised py_exception

datatype message =
    Already_configured
  | Passwords_dont_match
  | Password_too_short
  | Setup_complete
  | Error_not_configured
  | Authentication_failed
  | Admin_mode_activated
  | Admin_authentication_failed
  | Error_does_not_exist
  | Error_not_a_folder
  | Error_already_locked
  | Error_not_locked
  | Error_hidden_data_not_found
  | Warning_could_not_move string
  | Warning_could_not_restore string
  | Locked_successfully nat
  | Unlocked_successfully nat
  | User_password_changed
  | Admin_password_changed
  | No_folders_locked
  | Status_row string string nat
  | Operation_cancelled
  | Unlocked path
  | Error_unlocking path py_exception
  | Folders_unlocked nat
  | Available_admin_commands

text \<open>The path attributes that \<^verbatim>\<open>__init__\<close> sets, from the directory of the script.\<close>

record FolderLock =
  script_dir :: path
  config_dir :: path
  hidden_dir :: path
  admin_hash_file :: path
  user_hash_file :: path
  lock_status_file :: path

definition FolderLock_paths :: "path \<Rightarrow> FolderLock" where
  "FolderLock_paths d =
     \<lparr>script_dir = d,
      config_dir = d @ [''.config''],
      hidden_dir = d @ [''.config'', ''.locked_data''],
      admin_hash_file = d @ [''.config'', ''admin_hash.json''],
      user_hash_file = d @ [''.config'', ''user_hash.json''],
      lock_status_file = d @ [''.config'', ''lock_status.json'']\<rparr>"

text \<open>
  \<^verbatim>\<open>__init__\<close>: both directories are created when they are missing. (Setting the
  hidden attribute on Windows changes nothing that the tool reads.)
\<close>

definition FolderLock_init :: "path \<Rightarrow> filesystem \<Rightarrow> FolderLock outcome \<times> filesystem" where
  "FolderLock_init d fs =
     (let self = FolderLock_paths d in
      case mkdir (config_dir self) True fs of
        Inl e \<Rightarrow> (Raised e, fs)
      | Inr fs1 \<Rightarrow>
          (case mkdir (hidden_dir self) True fs1 of
             Inl e \<Rightarrow> (Raised e, fs1)
           | Inr fs2 \<Rightarrow> (Returned self, fs2)))"

text \<open>
  The loop that asks for a new password and its confirmation until both agree and have six
  characters. \<open>inputs\<close> are the lines \<^verbatim>\<open>getpass\<close> will return; when they run out,
  \<^verbatim>\<open>getpass\<close> raises \<^verbatim>\<open>EOFError\<close>. The result is the messages printed, and the
  password chosen with the inputs left.
\<close>

fun prompt_new_password :: "string list \<Rightarrow> message list \<times> (string \<times> string list) option" where
  "prompt_new_password (pass # pass_confirm # rest) =
     (if pass \<noteq> pass_confirm then
        (let (ms, r) = prompt_new_password rest in (Passwords_dont_match # ms, r))
      else if length pass < 6 then
        (let (ms, r) = prompt_new_password rest in (Password_too_short # ms, r))
      else ([], Some (pass, rest)))"
| "prompt_new_password inputs = ([], None)"

text \<open>
  \<^verbatim>\<open>initial_setup\<close>. \<open>src_admin\<close> and \<open>src_user\<close> are what the two calls of
  \<^verbatim>\<open>os.urandom\<close> draw from.
\<close>

definition initial_setup ::
  "FolderLock \<Rightarrow> string list \<Rightarrow> entropy \<Rightarrow> entropy \<Rightarrow> filesystem
     \<Rightarrow> bool outcome \<times> message list \<times> filesystem" where
  "initial_setup self inputs src_admin src_user fs =
     (if path_exists fs (admin_hash_file self) then (Returned False, [Already_configured], fs)
      else
        (case prompt_new_password inputs of
           (ms1, None) \<Rightarrow> (Raised EOFError, ms1, fs)
         | (ms1, Some (admin_pass, rest)) \<Rightarrow>
             (case prompt_new_password rest of
                (ms2, None) \<Rightarrow> (Raised EOFError, ms1 @ ms2, fs)
              | (ms2, Some (user_pass, rest')) \<Rightarrow>
                  (case write_json (admin_hash_file self)
                          (Credential_json (hash_password src_admin admin_pass None)) fs of
                     Inl e \<Rightarrow> (Raised e, ms1 @ ms2, fs)
                   | Inr fs1 \<Rightarrow>
                       (case write_json (user_hash_file self)
                               (Credential_json (hash_password src_user user_pass None)) fs1 of
                          Inl e \<Rightarrow> (Raised e, ms1 @ ms2, fs1)
                        | Inr fs2 \<Rightarrow>
                            (case write_json (lock_status_file self) (Registry_json []) fs2 of
                               Inl e \<Rightarrow> (Raised e, ms1 @ ms2, fs2)
                             | Inr fs3 \<Rightarrow> (Returned True, ms1 @ ms2 @ [Setup_complete], fs3)))))))"

text \<open>
  \<^verbatim>\<open>authenticate_user\<close> and \<^verbatim>\<open>authenticate_admin\<close>; \<open>password\<close> is what
  \<^verbatim>\<open>getpass\<close> returns. Neither writes anything.
\<close>

definition authenticate_user :: "FolderLock \<Rightarrow> string \<Rightarrow> filesystem \<Rightarrow> bool outcome \<times> message list" where
  "authenticate_user self password fs =
     (if \<not> path_exists fs (user_hash_file self) then (Returned False, [Error_not_configured])
      else
        (case load_credential (user_hash_file self) fs of
           Inl e \<Rightarrow> (Raised e, [])
         | Inr stored_hash \<Rightarrow>
             (if verify_password password stored_hash then (Returned True, [])
              else (Returned False, [Authentication_failed]))))"

definition authenticate_admin :: "FolderLock \<Rightarrow> string \<Rightarrow> filesystem \<Rightarrow> bool outcome \<times> message list" where
  "authenticate_admin self password fs =
     (if \<not> path_exists fs (admin_hash_file self) then (Returned False, [Error_not_configured])
      else
        (case load_credential (admin_hash_file self) fs of
           Inl e \<Rightarrow> (Raised e, [])
         | Inr stored_hash \<Rightarrow>
             (if verify_password password stored_hash then (Returned True, [Admin_mode_activated])
              else (Returned False, [Admin_authentication_failed]))))"

text \<open>
  The loop of \<^verbatim>\<open>lock_folder\<close> and of \<^verbatim>\<open>unlock_folder\<close> that moves the items of one
  directory into another: a move that raises is reported and the loop goes on. The result
  is the number of items moved, the names of those that could not be moved, and the file
  system.
\<close>

fun move_items :: "path \<Rightarrow> string list \<Rightarrow> path \<Rightarrow> filesystem \<Rightarrow> nat \<times> string list \<times> filesystem" where
  "move_items src_dir [] dst fs = (0, [], fs)"
| "move_items src_dir (item # items) dst fs =
     (case shutil_move (src_dir @ [item]) dst fs of
        Inr fs' \<Rightarrow>
          (let (n, failed, fs'') = move_items src_dir items dst fs' in (Suc n, failed, fs''))
      | Inl e \<Rightarrow>
          (let (n, failed, fs'') = move_items src_dir items dst fs in (n, item # failed, fs'')))"

text \<open>
  \<^verbatim>\<open>lock_folder(folder_path)\<close>. \<open>folder\<close> is \<^verbatim>\<open>Path(folder_path).absolute()\<close>,
  \<open>timestamp\<close> is \<^verbatim>\<open>datetime.now().strftime("%Y%m%d_%H%M%S")\<close> and \<open>now\<close> is
  \<^verbatim>\<open>datetime.now().isoformat()\<close>. The registry's key is the path itself. A
  \<open>folder\<close> with a component \<open>..\<close> is outside the model, which looks the path up as it
  is written and so finds nothing there.
\<close>

definition lock_folder ::
  "FolderLock \<Rightarrow> path \<Rightarrow> string \<Rightarrow> string \<Rightarrow> string \<Rightarrow> filesystem
     \<Rightarrow> bool outcome \<times> message list \<times> filesystem" where
  "lock_folder self folder password timestamp now fs =
     (if \<not> path_exists fs folder then (Returned False, [Error_does_not_exist], fs)
      else if \<not> is_dir fs folder then (Returned False, [Error_not_a_folder], fs)
      else
        (case authenticate_user self password fs of
           (Raised e, ms) \<Rightarrow> (Raised e, ms, fs)
         | (Returned False, ms) \<Rightarrow> (Returned False, ms, fs)
         | (Returned True, ms) \<Rightarrow>
             (case load_registry (lock_status_file self) fs of
                Inl e \<Rightarrow> (Raised e, ms, fs)
              | Inr lock_status \<Rightarrow>
                  (if folder \<in> fst ` set lock_status then
                     (Returned False, ms @ [Error_already_locked], fs)
                   else
                     (let hidden_name = pathname folder @ ''_'' @ timestamp;
                          hidden = hidden_dir self @ [hidden_name]
                      in case mkdir hidden False fs of
                           Inl e \<Rightarrow> (Raised e, ms, fs)
                         | Inr fs1 \<Rightarrow>
                             (case iterdir folder fs1 of
                                Inl e \<Rightarrow> (Raised e, ms, fs1)
                              | Inr items \<Rightarrow>
                                  (let (items_moved, failed, fs2) = move_items folder items hidden fs1;
                                       lock_status' =
                                         AList.update folder
                                           \<lparr>hidden_path = hidden, locked_at = now,
                                            items_count = items_moved\<rparr> lock_status;
                                       ms' = ms @ map Warning_could_not_move failed
                                   in case write_json (lock_status_file self)
                                             (Registry_json lock_status') fs2 of
                                        Inl e \<Rightarrow> (Raised e, ms', fs2)
                                      | Inr fs3 \<Rightarrow>
                                          (Returned True,
                                           ms' @ [Locked_successfully items_moved], fs3))))))))"

text \<open>\<^verbatim>\<open>unlock_folder(folder_path)\<close>. A failure of \<^verbatim>\<open>rmdir\<close> is passed over.\<close>

definition unlock_folder ::
  "FolderLock \<Rightarrow> path \<Rightarrow> string \<Rightarrow> filesystem \<Rightarrow> bool outcome \<times> message list \<times> filesystem" where
  "unlock_folder self folder password fs =
     (case authenticate_user self password fs of
        (Raised e, ms) \<Rightarrow> (Raised e, ms, fs)
      | (Returned False, ms) \<Rightarrow> (Returned False, ms, fs)
      | (Returned True, ms) \<Rightarrow>
          (case load_registry (lock_status_file self) fs of
             Inl e \<Rightarrow> (Raised e, ms, fs)
           | Inr lock_status \<Rightarrow>
               (case map_of lock_status folder of
                  None \<Rightarrow> (Returned False, ms @ [Error_not_locked], fs)
                | Some info \<Rightarrow>
                    (let hidden = hidden_path info in
                     if \<not> path_exists fs hidden then
                       (Returned False, ms @ [Error_hidden_data_not_found], fs)
                     else
                       (case mkdir folder True fs of
                          Inl e \<Rightarrow> (Raised e, ms, fs)
                        | Inr fs1 \<Rightarrow>
                            (case iterdir hidden fs1 of
                               Inl e \<Rightarrow> (Raised e, ms, fs1)
                             | Inr items \<Rightarrow>
                                 (let (items_restored, failed, fs2) = move_items hidden items folder fs1;
                                      fs3 = (case rmdir hidden fs2 of Inl e \<Rightarrow> fs2 | Inr fs' \<Rightarrow> fs');
                                      lock_status' = AList.delete folder lock_status;
                                      ms' = ms @ map Warning_could_not_restore failed
                                  in case write_json (lock_status_file self)
                                            (Registry_json lock_status') fs3 of
                                       Inl e \<Rightarrow> (Raised e, ms', fs3)
                                     | Inr fs4 \<Rightarrow>
                                         (Returned True,
                                          ms' @ [Unlocked_successfully items_restored], fs4))))))))"

text \<open>
  \<^verbatim>\<open>change_user_password\<close> and \<^verbatim>\<open>change_admin_password\<close>; \<open>src\<close> is what
  \<^verbatim>\<open>os.urandom\<close> draws from.
\<close>

definition change_user_password ::
  "FolderLock \<Rightarrow> string list \<Rightarrow> entropy \<Rightarrow> filesystem \<Rightarrow> unit outcome \<times> message list \<times> filesystem" where
  "change_user_password self inputs src fs =
     (case prompt_new_password inputs of
        (ms, None) \<Rightarrow> (Raised EOFError, ms, fs)
      | (ms, Some (new_pass, rest)) \<Rightarrow>
          (case write_json (user_hash_file self)
                  (Credential_json (hash_password src new_pass None)) fs of
             Inl e \<Rightarrow> (Raised e, ms, fs)
           | Inr fs' \<Rightarrow> (Returned (), ms @ [User_password_changed], fs')))"

definition change_admin_password ::
  "FolderLock \<Rightarrow> string list \<Rightarrow> entropy \<Rightarrow> filesystem \<Rightarrow> unit outcome \<times> message list \<times> filesystem" where
  "change_admin_password self inputs src fs =
     (case prompt_new_password inputs of
        (ms, None) \<Rightarrow> (Raised EOFError, ms, fs)
      | (ms, Some (new_pass, rest)) \<Rightarrow>
          (case write_json (admin_hash_file self)
                  (Credential_json (hash_password src new_pass None)) fs of
             Inl e \<Rightarrow> (Raised e, ms, fs)
           | Inr fs' \<Rightarrow> (Returned (), ms @ [Admin_password_changed], fs')))"

text \<open>
  \<^verbatim>\<open>show_lock_status\<close>. \<^verbatim>\<open>str(folder)\<close> is written with \<open>/\<close>; a long path is cut
  to its last 44 characters. \<open>strftime\<close> stands for the library's
  \<^verbatim>\<open>datetime.fromisoformat(s).strftime("%Y-%m-%d %H:%M")\<close>, with \<open>None\<close> where
  \<^verbatim>\<open>fromisoformat\<close> raises \<^verbatim>\<open>ValueError\<close>: the rows before such an entry have been
  printed when the exception ends the loop. Where no row is printed the formatter plays no
  part, and the examples pass \<open>Some\<close> for it.
\<close>

definition path_str :: "path \<Rightarrow> string" where
  "path_str p = (if p = [] then ''/'' else concat (map (\<lambda>c. ''/'' @ c) p))"

definition display_path :: "path \<Rightarrow> string" where
  "display_path folder =
     (let s = path_str folder in
      if length s > 47 then ''...'' @ drop (length s - 44) s else s)"

fun status_rows ::
  "(string \<Rightarrow> string option) \<Rightarrow> (path \<times> lock_entry) list \<Rightarrow> unit outcome \<times> message list" where
  "status_rows strftime [] = (Returned (), [])"
| "status_rows strftime ((folder, info) # entries) =
     (case strftime (locked_at info) of
        None \<Rightarrow> (Raised ValueError, [])
      | Some locked_time \<Rightarrow>
          (let (r, ms) = status_rows strftime entries
           in (r, Status_row (display_path folder) locked_time (items_count info) # ms)))"

definition show_lock_status ::
  "(string \<Rightarrow> string option) \<Rightarrow> FolderLock \<Rightarrow> filesystem \<Rightarrow> unit outcome \<times> message list" where
  "show_lock_status strftime self fs =
     (case load_registry (lock_status_file self) fs of
        Inl e \<Rightarrow> (Raised e, [])
      | Inr lock_status \<Rightarrow>
          (if lock_status = [] then (Returned (), [No_folders_locked])
           else status_rows strftime lock_status))"

text \<open>
  \<^verbatim>\<open>unlock_all_folders\<close>. Inside the \<^verbatim>\<open>try\<close> of one entry nothing is caught: the
  first move that raises ends the work on that entry, and the entry stays. \<open>move_all\<close> is
  that inner loop and \<open>unlock_entry\<close> the body of the \<^verbatim>\<open>try\<close> up to the deletion of the
  entry; both give the exception raised, if any, and the file system.
\<close>

fun move_all :: "path \<Rightarrow> string list \<Rightarrow> path \<Rightarrow> filesystem \<Rightarrow> py_exception option \<times> filesystem" where
  "move_all src_dir [] dst fs = (None, fs)"
| "move_all src_dir (item # items) dst fs =
     (case shutil_move (src_dir @ [item]) dst fs of
        Inl e \<Rightarrow> (Some e, fs)
      | Inr fs' \<Rightarrow> move_all src_dir items dst fs')"

definition unlock_entry :: "path \<Rightarrow> lock_entry \<Rightarrow> filesystem \<Rightarrow> py_exception option \<times> filesystem" where
  "unlock_entry folder info fs =
     (let hidden = hidden_path info in
      if path_exists fs hidden then
        (case mkdir folder True fs of
           Inl e \<Rightarrow> (Some e, fs)
         | Inr fs1 \<Rightarrow>
             (case iterdir hidden fs1 of
                Inl e \<Rightarrow> (Some e, fs1)
              | Inr items \<Rightarrow>
                  (case move_all hidden items folder fs1 of
                     (Some e, fs2) \<Rightarrow> (Some e, fs2)
                   | (None, fs2) \<Rightarrow>
                       (case rmdir hidden fs2 of
                          Inl e \<Rightarrow> (Some e, fs2)
                        | Inr fs3 \<Rightarrow> (None, fs3)))))
      else (None, fs))"

text \<open>
  The loop over \<^verbatim>\<open>lock_status.copy().items()\<close>: \<open>entries\<close> is the copy, \<open>lock_status\<close>
  the dictionary that loses the entries unlocked. The result is the dictionary, the messages
  and the file system; \<open>unlocked_count\<close> is the number of entries deleted.
\<close>

fun unlock_all_loop ::
  "(path \<times> lock_entry) list \<Rightarrow> registry \<Rightarrow> nat \<Rightarrow> filesystem
     \<Rightarrow> registry \<times> nat \<times> message list \<times> filesystem" where
  "unlock_all_loop [] lock_status unlocked_count fs = (lock_status, unlocked_count, [], fs)"
| "unlock_all_loop ((folder, info) # entries) lock_status unlocked_count fs =
     (case unlock_entry folder info fs of
        (None, fs') \<Rightarrow>
          (let (ls, n, ms, fs'') =
                 unlock_all_loop entries (AList.delete folder lock_status) (Suc unlocked_count) fs'
           in (ls, n, Unlocked folder # ms, fs''))
      | (Some e, fs') \<Rightarrow>
          (let (ls, n, ms, fs'') = unlock_all_loop entries lock_status unlocked_count fs'
           in (ls, n, Error_unlocking folder e # ms, fs'')))"

text \<open>\<^verbatim>\<open>str.lower\<close> on the code points the model has.\<close>

definition lower_char :: "char \<Rightarrow> char" where
  "lower_char c =
     (let n = (of_char c :: nat) in
      if (65 \<le> n \<and> n \<le> 90) \<or> (192 \<le> n \<and> n \<le> 222 \<and> n \<noteq> 215) then char_of (n + 32) else c)"

definition unlock_all_folders ::
  "FolderLock \<Rightarrow> string \<Rightarrow> filesystem \<Rightarrow> unit outcome \<times> message list \<times> filesystem" where
  "unlock_all_folders self confirmation fs =
     (if map lower_char confirmation \<noteq> ''yes'' then (Returned (), [Operation_cancelled], fs)
      else
        (case load_registry (lock_status_file self) fs of
           Inl e \<Rightarrow> (Raised e, [], fs)
         | Inr lock_status \<Rightarrow>
             (let (lock_status', unlocked_count, ms, fs') =
                    unlock_all_loop lock_status lock_status 0 fs
              in case write_json (lock_status_file self) (Registry_json lock_status') fs' of
                   Inl e \<Rightarrow> (Raised e, ms, fs')
                 | Inr fs'' \<Rightarrow> (Returned (), ms @ [Folders_unlocked unlocked_count], fs''))))"

text \<open>
  \<^verbatim>\<open>admin_mode\<close>: the admin's password first, then the command. The answer to the
  question of \<^verbatim>\<open>unlock_all_folders\<close> is the first of \<open>inputs\<close>.
\<close>

datatype admin_command = Change_pass | Change_admin | Status | Unlock_all

definition admin_mode ::
  "(string \<Rightarrow> string option) \<Rightarrow> FolderLock \<Rightarrow> admin_command option \<Rightarrow> string \<Rightarrow> string list
     \<Rightarrow> entropy \<Rightarrow> filesystem \<Rightarrow> unit outcome \<times> message list \<times> filesystem" where
  "admin_mode strftime self admin_cmd password inputs src fs =
     (case authenticate_admin self password fs of
        (Raised e, ms) \<Rightarrow> (Raised e, ms, fs)
      | (Returned False, ms) \<Rightarrow> (Returned (), ms, fs)
      | (Returned True, ms) \<Rightarrow>
          (let (r, ms', fs') =
                 (case admin_cmd of
                    Some Change_pass \<Rightarrow> change_user_password self inputs src fs
                  | Some Change_admin \<Rightarrow> change_admin_password self inputs src fs
                  | Some Status \<Rightarrow>
                      (let (r, ms') = show_lock_status strftime self fs in (r, ms', fs))
                  | Some Unlock_all \<Rightarrow>
                      (case inputs of
                         [] \<Rightarrow> (Raised EOFError, [], fs)
                       | c # cs \<Rightarrow> unlock_all_folders self c fs)
                  | None \<Rightarrow> (Returned (), [Available_admin_commands], fs))
           in (r, ms @ ms', fs')))"

section \<open>A concrete installation\<close>

text \<open>
  The scenario of the specification: the script lives in \<open>/opt/tool\<close>, the user's password is
  \<open>secret1\<close> and the admin's \<open>adminpw\<close>, and \<open>/tmp/x\<close> holds the files \<open>a.txt\<close> and
  \<open>b.txt\<close>. \<open>fs_setup\<close> is the file system after \<^verbatim>\<open>setup\<close>.
\<close>

definition tool :: FolderLock where
  "tool = FolderLock_paths [''opt'', ''tool'']"

definition admin_cred :: credential where
  "admin_cred = hash_password (\<lambda>i. 1) ''adminpw'' None"

definition user_cred :: credential where
  "user_cred = hash_password (\<lambda>i. 2) ''secret1'' None"

definition fs_setup :: filesystem where
  "fs_setup =
     [([''opt''], Dir),
      ([''opt'', ''tool''], Dir),
      ([''opt'', ''tool'', ''folder_lock.py''], File (Other_data 0)),
      ([''opt'', ''tool'', ''.config''], Dir),
      ([''opt'', ''tool'', ''.config'', ''.locked_data''], Dir),
      ([''opt'', ''tool'', ''.config'', ''admin_hash.json''], File (Credential_json admin_cred)),
      ([''opt'', ''tool'', ''.config'', ''user_hash.json''], File (Credential_json user_cred)),
      ([''opt'', ''tool'', ''.config'', ''lock_status.json''], File (Registry_json [])),
      ([''tmp''], Dir),
      ([''tmp'', ''x''], Dir),
      ([''tmp'', ''x'', ''a.txt''], File (Other_data 1)),
      ([''tmp'', ''x'', ''b.txt''], File (Other_data 2))]"

text \<open>The entry and the file system after \<^verbatim>\<open>lock /tmp/x\<close> at the time \<open>20260101_120000\<close>.\<close>

definition entry_x :: lock_entry where
  "entry_x =
     \<lparr>hidden_path = [''opt'', ''tool'', ''.config'', ''.locked_data'', ''x_20260101_120000''],
      locked_at = ''2026-01-01T12:00:00'', items_count = 2\<rparr>"

definition fs_locked :: filesystem where
  "fs_locked =
     [([''opt''], Dir),
      ([''opt'', ''tool''], Dir),
      ([''opt'', ''tool'', ''folder_lock.py''], File (Other_data 0)),
      ([''opt'', ''tool'', ''.config''], Dir),
      ([''opt'', ''tool'', ''.config'', ''.locked_data''], Dir),
      ([''opt'', ''tool'', ''.config'', ''admin_hash.json''], File (Credential_json admin_cred)),
      ([''opt'', ''tool'', ''.config'', ''user_hash.json''], File (Credential_json user_cred)),
      ([''opt'', ''tool'', ''.config'', ''lock_status.json''],
         File (Registry_json [([''tmp'', ''x''], entry_x)])),
      ([''tmp''], Dir),
      ([''tmp'', ''x''], Dir),
      ([''opt'', ''tool'', ''.config'', ''.locked_data'', ''x_20260101_120000'', ''a.txt''],
         File (Other_data 1)),
      ([''opt'', ''tool'', ''.config'', ''.locked_data'', ''x_20260101_120000'', ''b.txt''],
         File (Other_data 2)),
      ([''opt'', ''tool'', ''.config'', ''.locked_data'', ''x_20260101_120000''], Dir)]"

text \<open>
  Variants: the registry file deleted after setup; the vault of \<open>/tmp/x\<close> deleted while the
  folder is locked; a credential file that holds a cut-off hash, which no password matches;
  and a locked installation whose admin credential is missing.
\<close>

definition fs_no_registry :: filesystem where
  "fs_no_registry = AList.delete [''opt'', ''tool'', ''.config'', ''lock_status.json''] fs_setup"

definition fs_vault_missing :: filesystem where
  "fs_vault_missing = take 10 fs_locked"

definition stale_cred :: credential where
  "stale_cred = \<lparr>salt = ''00'', hash = ''0''\<rparr>"

definition fs_stale_cred :: filesystem where
  "fs_stale_cred =
     AList.update [''opt'', ''tool'', ''.config'', ''user_hash.json'']
       (File (Credential_json stale_cred)) fs_setup"

definition fs_no_admin :: filesystem where
  "fs_no_admin = AList.delete [''opt'', ''tool'', ''.config'', ''admin_hash.json''] fs_locked"

text \<open>
  The locked installation after somebody has put new files \<open>a.txt\<close> and \<open>b.txt\<close> into
  \<open>/tmp/x\<close>, and what \<^verbatim>\<open>unlock /tmp/x\<close> leaves of it.
\<close>

definition fs_refilled :: filesystem where
  "fs_refilled =
     fs_locked @ [([''tmp'', ''x'', ''a.txt''], File (Other_data 3)),
                  ([''tmp'', ''x'', ''b.txt''], File (Other_data 4))]"

definition fs_refilled_unlocked :: filesystem where
  "fs_refilled_unlocked =
     AList.update [''opt'', ''tool'', ''.config'', ''lock_status.json'']
       (File (Registry_json [])) fs_refilled"


text \<open>
  The locked installation after \<open>/tmp\<close> has been deleted with the emptied folder in it,
  and the locked installation with a regular file where the vault of \<open>/tmp/x\<close> was.
\<close>

definition fs_parent_gone :: filesystem where
  "fs_parent_gone = AList.delete [''tmp''] (AList.delete [''tmp'', ''x''] fs_locked)"

definition fs_vault_file :: filesystem where
  "fs_vault_file = fs_vault_missing @ [(hidden_path entry_x, File (Other_data 5))]"

text \<open>
  What \<^verbatim>\<open>lock /opt/tool/.config\<close> makes of \<open>fs_setup\<close>: the credential files and the
  registry file are in the vault, and a new registry file holds the entry.
\<close>

definition entry_config :: lock_entry where
  "entry_config =
     \<lparr>hidden_path = [''opt'', ''tool'', ''.config'', ''.locked_data'', ''.config_20260101_120000''],
      locked_at = ''2026-01-01T12:00:00'', items_count = 3\<rparr>"

definition fs_config_locked :: filesystem where
  "fs_config_locked =
     [([''opt''], Dir),
      ([''opt'', ''tool''], Dir),
      ([''opt'', ''tool'', ''folder_lock.py''], File (Other_data 0)),
      ([''opt'', ''tool'', ''.config''], Dir),
      ([''opt'', ''tool'', ''.config'', ''.locked_data''], Dir),
      ([''opt'', ''tool'', ''.config'', ''.locked_data'', ''.config_20260101_120000'',
        ''admin_hash.json''], File (Credential_json admin_cred)),
      ([''opt'', ''tool'', ''.config'', ''.locked_data'', ''.config_20260101_120000'',
        ''user_hash.json''], File (Credential_json user_cred)),
      ([''opt'', ''tool'', ''.config'', ''.locked_data'', ''.config_20260101_120000'',
        ''lock_status.json''], File (Registry_json [])),
      ([''tmp''], Dir),
      ([''tmp'', ''x''], Dir),
      ([''tmp'', ''x'', ''a.txt''], File (Other_data 1)),
      ([''tmp'', ''x'', ''b.txt''], File (Other_data 2)),
      ([''opt'', ''tool'', ''.config'', ''.locked_data'', ''.config_20260101_120000''], Dir),
      ([''opt'', ''tool'', ''.config'', ''lock_status.json''],
         File (Registry_json [([''opt'', ''tool'', ''.config''], entry_config)]))]"

section \<open>Well-formed file systems\<close>

text \<open>
  The file system is a tree: no path is listed twice, and every path listed has a parent
  that is a directory.
\<close>

definition wf_fs :: "filesystem \<Rightarrow> bool" where
  "wf_fs fs \<longleftrightarrow>
     distinct (map fst fs) \<and> (\<forall>(p, n) \<in> set fs. p \<noteq> [] \<and> is_dir fs (butlast p))"

text \<open>
  The state of the file system while a folder is sealed: \<open>moved_fs F H M fs\<close> is \<open>fs\<close>
  with the children of the folder \<open>F\<close> whose names are in \<open>M\<close> moved, with all that is
  below them, into the vault \<open>H\<close>. \<open>sealing F H fs\<close> says that \<open>fs\<close> is a file system in
  which the folder \<open>F\<close> can be sealed into \<open>H\<close>: a tree in which \<open>H\<close> is an empty
  directory that does not lie on the way to \<open>F\<close>.
\<close>

definition moved :: "path \<Rightarrow> path \<Rightarrow> string set \<Rightarrow> path \<Rightarrow> path" where
  "moved F H M p = (if \<exists>c \<in> M. prefix (F @ [c]) p then H @ drop (length F) p else p)"

definition moved_fs :: "path \<Rightarrow> path \<Rightarrow> string set \<Rightarrow> filesystem \<Rightarrow> filesystem" where
  "moved_fs F H M fs = map (\<lambda>(p, n). (moved F H M p, n)) fs"

definition sealing :: "path \<Rightarrow> path \<Rightarrow> filesystem \<Rightarrow> bool" where
  "sealing F H fs \<longleftrightarrow>
     distinct (map fst fs) \<and> [] \<notin> fst ` set fs \<and> H \<noteq> [] \<and> is_dir fs H \<and> is_dir fs F
     \<and> \<not> prefix H F \<and> (\<forall>q \<in> fst ` set fs. prefix H q \<longrightarrow> q = H)"

section \<open>Facts about the encodings and the key derivation\<close>

lemma hex_digit_inj:
  assumes "i < 16" "j < 16" "hex_digits ! i = hex_digits ! j"
  shows "i = j"
proof -
  have d: "distinct hex_digits" by (simp add: hex_digits_def)
  have l: "length hex_digits = 16" by (simp add: hex_digits_def)
  from assms d l show ?thesis by (simp add: nth_eq_iff_index_eq)
qed

lemma hex_byte_inj: "hex_byte a = hex_byte b \<Longrightarrow> a = b"
proof -
  assume h: "hex_byte a = hex_byte b"
  have la: "unat a < 256" and lb: "unat b < 256"
    using unsigned_less [of a] unsigned_less [of b] by simp_all
  then have "unat a div 16 < 16" "unat b div 16 < 16" "unat a mod 16 < 16" "unat b mod 16 < 16"
    by simp_all
  with h have "unat a div 16 = unat b div 16" "unat a mod 16 = unat b mod 16"
    by (auto simp: hex_byte_def intro: hex_digit_inj)
  then have "unat a = unat b"
    by (metis div_mult_mod_eq)
  then show "a = b" by (simp add: word_unat_eq_iff)
qed

lemma hex_inj: "hex xs = hex ys \<Longrightarrow> xs = ys"
proof (induction xs arbitrary: ys)
  case Nil
  then show ?case by (cases ys) (simp_all add: hex_def hex_byte_def)
next
  case (Cons x xs)
  then show ?case
  proof (cases ys)
    case Nil
    with Cons.prems show ?thesis by (simp add: hex_def hex_byte_def)
  next
    case (Cons y ys')
    with Cons.prems have "hex_byte x @ hex xs = hex_byte y @ hex ys'"
      by (simp add: hex_def)
    moreover have "length (hex_byte x) = length (hex_byte y)" by (simp add: hex_byte_def)
    ultimately have "hex_byte x = hex_byte y" "hex xs = hex ys'" by simp_all
    with Cons.IH Cons show ?thesis by (simp add: hex_byte_inj)
  qed
qed

lemma hex_eq_iff: "hex xs = hex ys \<longleftrightarrow> xs = ys"
  using hex_inj by blast

lemma length_hex: "length (hex bs) = 2 * length bs"
  by (induction bs) (simp_all add: hex_def hex_byte_def)

lemma hex_digit_ascii: "i < 16 \<Longrightarrow> (of_char (hex_digits ! i) :: nat) < 128"
proof -
  assume "i < 16"
  then have "i < length hex_digits" by (simp add: hex_digits_def)
  then have "hex_digits ! i \<in> set hex_digits" by (rule nth_mem)
  moreover have "\<forall>c \<in> set hex_digits. (of_char c :: nat) < 128"
    by (simp add: hex_digits_def)
  ultimately show ?thesis by blast
qed

lemma length_encode_hex_byte: "length (encode_utf8 (hex_byte b)) = 2"
proof -
  have "unat b < 256" using unsigned_less [of b] by simp
  then have "unat b div 16 < 16" "unat b mod 16 < 16" by simp_all
  then show ?thesis
    by (simp add: encode_utf8_def hex_byte_def encode_char_def hex_digit_ascii)
qed

lemma encode_utf8_append: "encode_utf8 (xs @ ys) = encode_utf8 xs @ encode_utf8 ys"
  by (simp add: encode_utf8_def)

lemma length_encode_hex: "length (encode_utf8 (hex bs)) = 2 * length bs"
proof (induction bs)
  case Nil
  show ?case by (simp add: hex_def encode_utf8_def)
next
  case (Cons b bs)
  have "hex (b # bs) = hex_byte b @ hex bs" by (simp add: hex_def)
  with Cons show ?case by (simp add: encode_utf8_append length_encode_hex_byte)
qed

lemma hmac_key_trailing_zero:
  assumes "length key < 64"
  shows "hmac_key (key @ [0]) = hmac_key key"
proof -
  from assms have "replicate (64 - length key) (0::byte) = 0 # replicate (63 - length key) 0"
    by (cases "64 - length key") simp_all
  with assms show ?thesis by (simp add: hmac_key_def)
qed

lemma hmac_sha256_key: "hmac_key k = hmac_key k' \<Longrightarrow> hmac_sha256 k m = hmac_sha256 k' m"
  by (simp add: hmac_sha256_def)

lemma pbkdf2_rounds_key:
  "hmac_key k = hmac_key k' \<Longrightarrow> pbkdf2_rounds k n u t = pbkdf2_rounds k' n u t"
  by (induction n arbitrary: u t) (simp_all add: hmac_sha256_key [of k k'])

lemma pbkdf2_key:
  "hmac_key k = hmac_key k' \<Longrightarrow> pbkdf2_hmac_sha256 k s n = pbkdf2_hmac_sha256 k' s n"
  by (simp add: pbkdf2_hmac_sha256_def hmac_sha256_key [of k k'] pbkdf2_rounds_key [of k k'])

lemma verify_password_iff:
  "verify_password p stored \<longleftrightarrow>
     hex (pbkdf2_hmac_sha256 (encode_utf8 p) (encode_utf8 (salt stored)) 100000) = hash stored"
  by (simp add: verify_password_def hash_password_def Let_def)

section \<open>Facts about reading and writing files\<close>

lemma verify_password_same: "verify_password pw (hash_password src pw salt_arg)"
  by (simp add: verify_password_iff hash_password_def Let_def)

lemma verify_password_odd_hash:
  assumes "odd (length (hash c))"
  shows "\<not> verify_password pw c"
proof
  assume "verify_password pw c"
  then have "length (hash c) =
      length (hex (pbkdf2_hmac_sha256 (encode_utf8 pw) (encode_utf8 (salt c)) 100000))"
    by (simp add: verify_password_iff)
  then have "even (length (hash c))" by (simp add: length_hex)
  with assms show False by simp
qed

lemma lookup_update:
  "p \<noteq> [] \<Longrightarrow> lookup (AList.update p v fs) q = (if q = p then Some v else lookup fs q)"
  by (simp add: lookup_def update_conv')

lemma lookup_delete:
  "lookup (AList.delete p fs) q = (if q = p \<and> p \<noteq> [] then None else lookup fs q)"
  by (auto simp: lookup_def delete_conv')

lemma lookup_append:
  "lookup (fs @ [(p, v)]) q = (if q \<noteq> [] \<and> q = p \<and> lookup fs p = None then Some v else lookup fs q)"
  by (auto simp: lookup_def map_add_def split: option.splits)

lemma open_w_Inr:
  "open_w p fs = Inr fs' \<Longrightarrow> p \<noteq> [] \<and> fs' = AList.update p (File Empty_file) fs"
  by (auto simp: open_w_def lookup_def split: option.splits node.splits if_splits)

lemma write_json_Inr:
  "write_json p obj fs = Inr fs' \<Longrightarrow> p \<noteq> [] \<and> fs' = AList.update p (File obj) fs"
  by (auto simp: write_json_def json_dump_def dest!: open_w_Inr split: sum.splits)

lemma write_json_lookup:
  "write_json p obj fs = Inr fs' \<Longrightarrow> lookup fs' q = (if q = p then Some (File obj) else lookup fs q)"
  by (auto dest!: write_json_Inr simp: lookup_update)

lemma write_json_file:
  "lookup fs p = Some (File c) \<Longrightarrow> write_json p obj fs = Inr (AList.update p (File obj) fs)"
  by (simp add: write_json_def open_w_def json_dump_def)

lemma write_json_new:
  "lookup fs p = None \<Longrightarrow> is_dir fs (butlast p) \<Longrightarrow>
     write_json p obj fs = Inr (AList.update p (File obj) fs)"
  by (simp add: write_json_def open_w_def json_dump_def is_dir_def path_exists_def)

lemma write_json_ok:
  assumes "lookup fs p \<noteq> Some Dir" and "is_dir fs (butlast p)"
  shows "write_json p obj fs = Inr (AList.update p (File obj) fs)"
proof (cases "lookup fs p")
  case None
  with assms show ?thesis by (simp add: write_json_new)
next
  case (Some a)
  with assms show ?thesis by (cases a) (simp_all add: write_json_file)
qed

lemma load_registry_lookup:
  "load_registry p fs = Inr r \<longleftrightarrow> lookup fs p = Some (File (Registry_json r))"
  by (auto simp: load_registry_def read_file_def split: option.splits node.splits content.splits)

lemma load_credential_lookup:
  "load_credential p fs = Inr c \<longleftrightarrow> lookup fs p = Some (File (Credential_json c))"
  by (auto simp: load_credential_def read_file_def split: option.splits node.splits content.splits)

lemma load_registry_missing:
  "\<not> path_exists fs p \<Longrightarrow> load_registry p fs = Inl FileNotFoundError"
  by (simp add: load_registry_def read_file_def path_exists_def)

lemma load_credential_exists:
  "load_credential p fs = Inr c \<Longrightarrow> path_exists fs p"
  by (simp add: load_credential_lookup path_exists_def)

lemma authenticate_user_True:
  "load_credential (user_hash_file self) fs = Inr c \<Longrightarrow> verify_password pw c \<Longrightarrow>
     authenticate_user self pw fs = (Returned True, [])"
  by (simp add: authenticate_user_def load_credential_exists)

lemma authenticate_user_False:
  "load_credential (user_hash_file self) fs = Inr c \<Longrightarrow> \<not> verify_password pw c \<Longrightarrow>
     authenticate_user self pw fs = (Returned False, [Authentication_failed])"
  by (simp add: authenticate_user_def load_credential_exists)

lemma authenticate_user_True_iff:
  "authenticate_user self pw fs = (Returned True, ms) \<longleftrightarrow>
     ms = [] \<and> (\<exists>c. load_credential (user_hash_file self) fs = Inr c \<and> verify_password pw c)"
  by (auto simp: authenticate_user_def load_credential_exists split: sum.splits if_splits)

section \<open>Evaluating the model on the concrete installation\<close>

lemmas fs_eval =
  path_exists_def is_dir_def lookup_def pathname_def children_def iterdir_def mkdir_def rmdir_def
  reprefix_def rename_tree_def os_rename_def shutil_move_def read_file_def open_w_def
  json_dump_def write_json_def load_credential_def load_registry_def authenticate_user_def
  tool_def FolderLock_paths_def Let_def numeral_2_eq_2

lemma user_cred_ok: "verify_password ''secret1'' user_cred"
  unfolding user_cred_def by (rule verify_password_same)

lemma stale_cred_fails: "\<not> verify_password pw stale_cred"
  by (rule verify_password_odd_hash) (simp add: stale_cred_def)

lemma user_cred_nul: "verify_password (''secret1'' @ [CHR 0x00]) user_cred"
proof -
  have e: "encode_utf8 (''secret1'' @ [CHR 0x00]) = encode_utf8 ''secret1'' @ [0]"
    by (simp add: encode_utf8_def encode_char_def)
  have l: "length (encode_utf8 ''secret1'') < 64"
    by (simp add: encode_utf8_def encode_char_def)
  have "hmac_key (encode_utf8 (''secret1'' @ [CHR 0x00])) = hmac_key (encode_utf8 ''secret1'')"
    unfolding e using l by (rule hmac_key_trailing_zero)
  then have "pbkdf2_hmac_sha256 (encode_utf8 (''secret1'' @ [CHR 0x00])) s n =
             pbkdf2_hmac_sha256 (encode_utf8 ''secret1'') s n" for s n
    by (rule pbkdf2_key)
  then show ?thesis
    by (simp add: user_cred_def verify_password_iff hash_password_def Let_def)
qed

section \<open>Facts about the tree\<close>

lemma path_exists_iff: "path_exists fs p \<longleftrightarrow> p = [] \<or> p \<in> fst ` set fs"
proof -
  have "(map_of fs p \<noteq> None) = (p \<in> fst ` set fs)"
    by (simp add: map_of_eq_None_iff)
  then show ?thesis by (auto simp: path_exists_def lookup_def)
qed

lemma is_dir_exists: "is_dir fs p \<Longrightarrow> path_exists fs p"
  by (simp add: is_dir_def path_exists_def)

lemma lookup_in_set: "lookup fs p = Some n \<Longrightarrow> p \<noteq> [] \<Longrightarrow> (p, n) \<in> set fs"
  by (simp add: lookup_def map_of_SomeD)

lemma wf_parent:
  assumes "wf_fs fs" "path_exists fs p" "p \<noteq> []"
  shows "is_dir fs (butlast p)"
proof -
  from assms(2,3) obtain n where "(p, n) \<in> set fs"
    by (auto simp: path_exists_iff)
  with assms(1) show ?thesis by (auto simp: wf_fs_def)
qed

lemma wf_ancestor:
  assumes "wf_fs fs"
  shows "path_exists fs (q @ r) \<Longrightarrow> r \<noteq> [] \<Longrightarrow> is_dir fs q"
proof (induction r rule: rev_induct)
  case Nil
  then show ?case by simp
next
  case (snoc x r)
  from wf_parent [OF assms snoc.prems(1)] have d: "is_dir fs (q @ r)"
    by (simp add: butlast_append)
  show ?case
  proof (cases "r = []")
    case True
    with d show ?thesis by simp
  next
    case False
    with snoc.IH d show ?thesis by (simp add: is_dir_exists)
  qed
qed

lemma wf_prefix_exists:
  assumes "wf_fs fs" "path_exists fs p" "prefix q p"
  shows "path_exists fs q"
proof -
  from assms(3) obtain r where p: "p = q @ r" by (auto simp: prefix_def)
  show ?thesis
  proof (cases "r = []")
    case True
    with p assms(2) show ?thesis by simp
  next
    case False
    with wf_ancestor [OF assms(1)] assms(2) p show ?thesis by (auto intro: is_dir_exists)
  qed
qed

lemma map_of_map_keys:
  assumes "\<forall>q \<in> fst ` set fs. f q = f p \<longrightarrow> q = p"
  shows "map_of (map (\<lambda>(k, v). (f k, v)) fs) (f p) = map_of fs p"
  using assms by (induction fs) auto

lemma map_of_map_keys_None:
  assumes "p' \<notin> f ` fst ` set fs"
  shows "map_of (map (\<lambda>(k, v). (f k, v)) fs) p' = None"
  using assms by (induction fs) auto

lemma reprefix_under: "reprefix src dst (src @ r) = dst @ r"
  by (simp add: reprefix_def)

lemma reprefix_other: "\<not> prefix src p \<Longrightarrow> reprefix src dst p = p"
  by (simp add: reprefix_def)

lemma rename_tree_lookup:
  assumes wf: "wf_fs fs" and d: "dst \<noteq> []" and nd: "\<not> path_exists fs dst"
    and s: "src \<noteq> []"
  shows "lookup (rename_tree src dst fs) p =
    (if prefix dst p then lookup fs (src @ drop (length dst) p)
     else if prefix src p then None else lookup fs p)"
proof -
  have under_dst: "\<not> prefix dst q" if "q \<in> fst ` set fs" for q
    using wf_prefix_exists [OF wf, of q dst] nd that by (auto simp: path_exists_iff)
  show ?thesis
  proof (cases "prefix dst p")
    case True
    then obtain r where p: "p = dst @ r" by (auto simp: prefix_def)
    have "\<forall>q \<in> fst ` set fs. reprefix src dst q = reprefix src dst (src @ r) \<longrightarrow> q = src @ r"
    proof (intro ballI impI)
      fix q assume q: "q \<in> fst ` set fs" and e: "reprefix src dst q = reprefix src dst (src @ r)"
      show "q = src @ r"
      proof (cases "prefix src q")
        case True
        then obtain r' where "q = src @ r'" by (auto simp: prefix_def)
        with e show ?thesis by (simp add: reprefix_under)
      next
        case False
        with e have "q = dst @ r" by (simp add: reprefix_other reprefix_under)
        with under_dst [OF q] show ?thesis by simp
      qed
    qed
    from map_of_map_keys [where f = "reprefix src dst", OF this]
    have "map_of (rename_tree src dst fs) (dst @ r) = map_of fs (src @ r)"
      by (simp add: rename_tree_def reprefix_under)
    with True p d s show ?thesis
      by (simp add: lookup_def)
  next
    case nodst: False
    show ?thesis
    proof (cases "prefix src p")
      case True
      have "p \<notin> reprefix src dst ` fst ` set fs"
      proof
        assume "p \<in> reprefix src dst ` fst ` set fs"
        then obtain q where q: "q \<in> fst ` set fs" and e: "p = reprefix src dst q" by blast
        show False
        proof (cases "prefix src q")
          case True
          with e nodst show ?thesis by (simp add: reprefix_def)
        next
          case False
          with e True show ?thesis by (simp add: reprefix_def)
        qed
      qed
      from map_of_map_keys_None [OF this]
      have "map_of (rename_tree src dst fs) p = None"
        by (simp add: rename_tree_def)
      moreover have "p \<noteq> []" using True s by auto
      ultimately show ?thesis using True nodst
        by (simp add: lookup_def)
    next
      case False
      have "\<forall>q \<in> fst ` set fs. reprefix src dst q = reprefix src dst p \<longrightarrow> q = p"
      proof (intro ballI impI)
        fix q assume q: "q \<in> fst ` set fs" and e: "reprefix src dst q = reprefix src dst p"
        show "q = p"
        proof (cases "prefix src q")
          case True
          with e False nodst show ?thesis by (auto simp: reprefix_def)
        next
          case nq: False
          with e False show ?thesis by (simp add: reprefix_def)
        qed
      qed
      from map_of_map_keys [where f = "reprefix src dst", OF this]
      have "map_of (rename_tree src dst fs) p = map_of fs p"
        using False by (simp add: rename_tree_def reprefix_def)
      with False nodst show ?thesis by (simp add: lookup_def)
    qed
  qed
qed

lemma reprefix_inj_on:
  assumes wf: "wf_fs fs" and nd: "\<not> path_exists fs dst"
  shows "inj_on (reprefix src dst) (fst ` set fs)"
proof (rule inj_onI)
  fix p q
  assume p: "p \<in> fst ` set fs" and q: "q \<in> fst ` set fs"
    and e: "reprefix src dst p = reprefix src dst q"
  have under_dst: "\<not> prefix dst x" if "x \<in> fst ` set fs" for x
    using wf_prefix_exists [OF wf, of x dst] nd that by (auto simp: path_exists_iff)
  show "p = q"
  proof (cases "prefix src p")
    case True
    then obtain r where r: "p = src @ r" by (auto simp: prefix_def)
    show ?thesis
    proof (cases "prefix src q")
      case True
      then obtain r' where "q = src @ r'" by (auto simp: prefix_def)
      with e r show ?thesis by (simp add: reprefix_under)
    next
      case False
      with e r have "q = dst @ r" by (simp add: reprefix_under reprefix_other)
      with under_dst [OF q] show ?thesis by simp
    qed
  next
    case False
    show ?thesis
    proof (cases "prefix src q")
      case True
      then obtain r' where "q = src @ r'" by (auto simp: prefix_def)
      with e False have "p = dst @ r'" by (simp add: reprefix_under reprefix_other)
      with under_dst [OF p] show ?thesis by simp
    next
      case nq: False
      with e False show ?thesis by (simp add: reprefix_other)
    qed
  qed
qed

lemma rename_tree_wf:
  assumes wf: "wf_fs fs" and d: "dst \<noteq> []" and nd: "\<not> path_exists fs dst"
    and s: "src \<noteq> []" and np: "\<not> prefix src dst" and pd: "is_dir fs (butlast dst)"
  shows "wf_fs (rename_tree src dst fs)"
proof -
  note lk = rename_tree_lookup [OF wf d nd s]
  have under_dst: "\<not> prefix dst x" if "x \<in> fst ` set fs" for x
    using wf_prefix_exists [OF wf, of x dst] nd that by (auto simp: path_exists_iff)
  have "map fst (rename_tree src dst fs) = map (reprefix src dst) (map fst fs)"
    by (simp add: rename_tree_def case_prod_unfold comp_def)
  moreover have "distinct (map (reprefix src dst) (map fst fs))"
  proof (subst distinct_map, intro conjI)
    show "distinct (map fst fs)" using wf by (simp add: wf_fs_def)
    show "inj_on (reprefix src dst) (set (map fst fs))"
      using reprefix_inj_on [OF wf nd, of src] by simp
  qed
  ultimately have dist: "distinct (map fst (rename_tree src dst fs))"
    by simp
  have par: "p' \<noteq> [] \<and> is_dir (rename_tree src dst fs) (butlast p')"
    if "(p', n) \<in> set (rename_tree src dst fs)" for p' n
  proof -
    from that obtain p where p: "(p, n) \<in> set fs" and p': "p' = reprefix src dst p"
      by (auto simp: rename_tree_def)
    from p wf have pne: "p \<noteq> []" and pp: "is_dir fs (butlast p)"
      by (auto simp: wf_fs_def)
    from p have pk: "p \<in> fst ` set fs" by force
    show ?thesis
    proof (cases "prefix src p")
      case True
      then obtain r where r: "p = src @ r" by (auto simp: prefix_def)
      show ?thesis
      proof (cases "r = []")
        case True
        with r p' have e: "p' = dst" by (simp add: reprefix_def)
        have "\<not> prefix dst (butlast dst)"
          using d by (metis append_butlast_last_id prefix_order.eq_iff prefix_snoc
              append_self_conv not_Cons_self2 prefix_prefix)
        moreover have "\<not> prefix src (butlast dst)"
          using np by (meson prefix_order.trans prefixeq_butlast)
        ultimately show ?thesis using e d pd by (simp add: is_dir_def lk)
      next
        case False
        with r p' have e: "p' = dst @ r" and b: "butlast p' = dst @ butlast r"
          by (simp_all add: reprefix_under butlast_append)
        from False r have "butlast p = src @ butlast r" by (simp add: butlast_append)
        with pp b e d show ?thesis by (simp add: is_dir_def lk)
      qed
    next
      case False
      with p' have e: "p' = p" by (simp add: reprefix_other)
      have "\<not> prefix dst (butlast p)"
        using under_dst [OF pk] by (meson prefix_order.trans prefixeq_butlast)
      moreover have "\<not> prefix src (butlast p)"
        using False by (meson prefix_order.trans prefixeq_butlast)
      ultimately show ?thesis using e pne pp by (simp add: is_dir_def lk)
    qed
  qed
  from dist par show ?thesis by (auto simp: wf_fs_def)
qed


lemma shutil_move_into_dir:
  assumes "is_dir fs dst" and "shutil_move src dst fs = Inr fs'"
  shows "(src = dst \<and> fs' = fs) \<or>
    (src \<noteq> dst \<and> src \<noteq> [] \<and> path_exists fs src
       \<and> \<not> path_exists fs (dst @ [pathname src])
       \<and> \<not> prefix src (dst @ [pathname src])
       \<and> fs' = rename_tree src (dst @ [pathname src]) fs)"
  using assms
  by (auto simp: shutil_move_def os_rename_def path_exists_def split: if_splits option.splits)

lemma shutil_move_preserves:
  assumes wf: "wf_fs fs" and dd: "is_dir fs dst" and mv: "shutil_move src dst fs = Inr fs'"
  shows "wf_fs fs'" and "is_dir fs' dst"
    and "path_exists fs p \<Longrightarrow> \<not> prefix src p \<Longrightarrow> lookup fs' p = lookup fs p"
proof -
  from shutil_move_into_dir [OF dd mv]
  consider "src = dst" "fs' = fs"
    | "src \<noteq> []" "\<not> path_exists fs (dst @ [pathname src])"
      "\<not> prefix src (dst @ [pathname src])"
      "fs' = rename_tree src (dst @ [pathname src]) fs"
    by blast
  then have "wf_fs fs' \<and> is_dir fs' dst \<and>
    (path_exists fs p \<longrightarrow> \<not> prefix src p \<longrightarrow> lookup fs' p = lookup fs p)"
  proof cases
    case 1
    with wf dd show ?thesis by simp
  next
    case 2
    note lk = rename_tree_lookup [OF wf _ 2(2) 2(1), simplified]
    have w: "wf_fs fs'"
      unfolding 2(4) using wf 2(1,2,3) dd by (intro rename_tree_wf) simp_all
    have nps: "\<not> prefix src dst"
      using 2(3) by (meson prefix_order.trans prefix_snoc)
    have d: "is_dir fs' dst"
      using dd nps by (simp add: 2(4) lk is_dir_def)
    have "lookup fs' p = lookup fs p" if e: "path_exists fs p" and np: "\<not> prefix src p"
    proof -
      have "\<not> prefix (dst @ [pathname src]) p"
        using wf_prefix_exists [OF wf e] 2(2) by blast
      with np show ?thesis by (simp add: 2(4) lk)
    qed
    with w d show ?thesis by blast
  qed
  then show "wf_fs fs'" and "is_dir fs' dst"
    and "path_exists fs p \<Longrightarrow> \<not> prefix src p \<Longrightarrow> lookup fs' p = lookup fs p"
    by blast+
qed

lemma move_items_preserves:
  assumes "wf_fs fs" and "is_dir fs dst" and "move_items src_dir items dst fs = (n, failed, fs')"
  shows "wf_fs fs' \<and> is_dir fs' dst \<and>
    (\<forall>p. path_exists fs p \<and> length p \<le> length src_dir \<longrightarrow> lookup fs' p = lookup fs p)"
  using assms
proof (induction items arbitrary: fs n failed)
  case Nil
  then show ?case by simp
next
  case (Cons item items)
  show ?case
  proof (cases "shutil_move (src_dir @ [item]) dst fs")
    case (Inl e)
    with Cons.prems(3) obtain n' failed' where
      "move_items src_dir items dst fs = (n', failed', fs')"
      by (auto split: prod.splits)
    from Cons.IH [OF Cons.prems(1,2) this] show ?thesis .
  next
    case (Inr fs1)
    with Cons.prems(3) obtain n' failed' where
      r: "move_items src_dir items dst fs1 = (n', failed', fs')"
      by (auto split: prod.splits)
    note pr = shutil_move_preserves [OF Cons.prems(1,2) Inr]
    from Cons.IH [OF pr(1,2) r]
    have ih: "wf_fs fs'" "is_dir fs' dst"
      "\<And>p. path_exists fs1 p \<Longrightarrow> length p \<le> length src_dir \<Longrightarrow> lookup fs' p = lookup fs1 p"
      by blast+
    have "lookup fs' p = lookup fs p" if e: "path_exists fs p" and l: "length p \<le> length src_dir" for p
    proof -
      have np: "\<not> prefix (src_dir @ [item]) p"
        using l by (auto dest: prefix_length_le)
      from pr(3) [OF e np] have 1: "lookup fs1 p = lookup fs p" .
      with e have "path_exists fs1 p" by (simp add: path_exists_def)
      from ih(3) [OF this l] 1 show ?thesis by simp
    qed
    with ih(1,2) show ?thesis by blast
  qed
qed


lemma mkdir_Inr:
  assumes "mkdir p ok fs = Inr fs'"
  shows "(fs' = fs \<and> is_dir fs p) \<or>
    (fs' = fs @ [(p, Dir)] \<and> \<not> path_exists fs p \<and> is_dir fs (butlast p))"
  using assms by (auto simp: mkdir_def split: if_splits)

lemma lookup_append_new:
  assumes "\<not> path_exists fs p"
  shows "lookup (fs @ [(p, v)]) q = (if q = p then Some v else lookup fs q)"
proof -
  from assms have "p \<noteq> []" and "lookup fs p = None"
    by (auto simp: path_exists_def lookup_def)
  then show ?thesis by (simp add: lookup_append)
qed

lemma mkdir_preserves:
  assumes wf: "wf_fs fs" and mk: "mkdir p ok fs = Inr fs'"
  shows "wf_fs fs'" and "is_dir fs' p"
    and "path_exists fs q \<Longrightarrow> lookup fs' q = lookup fs q"
proof -
  from mkdir_Inr [OF mk]
  have "wf_fs fs' \<and> is_dir fs' p \<and> (path_exists fs q \<longrightarrow> lookup fs' q = lookup fs q)"
  proof (elim disjE conjE)
    assume "fs' = fs" "is_dir fs p"
    with wf show ?thesis by simp
  next
    assume e: "fs' = fs @ [(p, Dir)]" and n: "\<not> path_exists fs p" and d: "is_dir fs (butlast p)"
    from n have pk: "p \<notin> fst ` set fs" and pne: "p \<noteq> []" by (auto simp: path_exists_iff)
    have "is_dir fs' x" if "is_dir fs x" for x
      using that n by (auto simp: e is_dir_def lookup_append_new path_exists_def)
    with wf pk pne d have "wf_fs fs'"
      by (auto simp: wf_fs_def e)
    moreover have "is_dir fs' p" by (simp add: e is_dir_def lookup_append_new n)
    moreover have "lookup fs' q = lookup fs q" if "path_exists fs q"
      using that n by (auto simp: e lookup_append_new)
    ultimately show ?thesis by blast
  qed
  then show "wf_fs fs'" and "is_dir fs' p"
    and "path_exists fs q \<Longrightarrow> lookup fs' q = lookup fs q" by blast+
qed

lemma rmdir_Inr:
  "rmdir p fs = Inr fs' \<Longrightarrow> fs' = AList.delete p fs \<and> p \<noteq> [] \<and> children fs p = []"
  by (auto simp: rmdir_def split: if_splits)

lemma children_set: "set (children fs d) = {c. path_exists fs (d @ [c])}"
proof -
  have "c \<in> set (children fs d) \<longleftrightarrow> d @ [c] \<in> fst ` set fs" for c
  proof
    assume "c \<in> set (children fs d)"
    then obtain q n where "(q, n) \<in> set fs" "q \<noteq> []" "butlast q = d" "c = last q"
      by (auto simp: children_def)
    then show "d @ [c] \<in> fst ` set fs" by force
  next
    assume "d @ [c] \<in> fst ` set fs"
    then obtain n where "(d @ [c], n) \<in> set fs" by auto
    then show "c \<in> set (children fs d)"
      by (force simp: children_def)
  qed
  then show ?thesis by (auto simp: path_exists_iff)
qed

lemma rmdir_wf:
  assumes wf: "wf_fs fs" and rm: "rmdir p fs = Inr fs'"
  shows "wf_fs fs'" and "lookup fs' q = (if q = p then None else lookup fs q)"
proof -
  from rmdir_Inr [OF rm] have e: "fs' = AList.delete p fs" and pne: "p \<noteq> []"
    and ch: "children fs p = []" by simp_all
  show lk: "lookup fs' q = (if q = p then None else lookup fs q)"
    using pne by (simp add: e lookup_delete)
  have nochild: "butlast x \<noteq> p" if "(x, n) \<in> set fs" for x n
  proof
    assume b: "butlast x = p"
    from that wf have "x \<noteq> []" by (auto simp: wf_fs_def)
    with b have "x = p @ [last x]" by (metis append_butlast_last_id)
    with that have "path_exists fs (p @ [last x])" by (force simp: path_exists_iff)
    then have "last x \<in> set (children fs p)" by (simp add: children_set)
    with ch show False by simp
  qed
  have "distinct (map fst fs')"
    using wf by (simp add: e wf_fs_def distinct_delete)
  moreover have "x \<noteq> [] \<and> is_dir fs' (butlast x)" if "(x, n) \<in> set fs'" for x n
  proof -
    from that have m: "(x, n) \<in> set fs" by (auto simp: e AList.delete_eq)
    with wf have "x \<noteq> []" "is_dir fs (butlast x)" by (auto simp: wf_fs_def)
    with nochild [OF m] show ?thesis
      unfolding is_dir_def e by (simp add: lookup_delete)
  qed
  ultimately show "wf_fs fs'" by (auto simp: wf_fs_def)
qed




lemma wf_fs_refilled: "wf_fs fs_refilled"
  by (simp add: wf_fs_def fs_refilled_def fs_locked_def is_dir_def lookup_def)


lemma wf_fs_setup: "wf_fs fs_setup"
  by (simp add: wf_fs_def fs_setup_def is_dir_def lookup_def)

lemma wf_fs_parent_gone: "wf_fs fs_parent_gone"
  by (simp add: wf_fs_def fs_parent_gone_def fs_locked_def is_dir_def lookup_def)

lemma wf_fs_refilled_unlocked: "wf_fs fs_refilled_unlocked"
  by (simp add: wf_fs_def fs_refilled_unlocked_def fs_refilled_def fs_locked_def is_dir_def
      lookup_def)

lemma moved_under: "c \<in> M \<Longrightarrow> moved F H M (F @ c # r) = H @ c # r"
  by (auto simp: moved_def)

lemma moved_cases:
  obtains (under) c r where "c \<in> M" "p = F @ c # r" "moved F H M p = H @ c # r"
  | (other) "\<forall>c \<in> M. \<not> prefix (F @ [c]) p" "moved F H M p = p"
proof (cases "\<exists>c \<in> M. prefix (F @ [c]) p")
  case True
  then obtain c r where "c \<in> M" "p = F @ c # r" by (auto simp: prefix_def)
  then show ?thesis using under by (simp add: moved_under)
next
  case False
  then show ?thesis using other by (simp add: moved_def)
qed

lemma moved_empty: "moved_fs F H {} fs = fs"
  by (simp add: moved_fs_def moved_def)

lemma sealing_not_under:
  assumes "sealing F H fs" "q \<in> fst ` set fs"
  shows "q \<noteq> H @ c # r"
  using assms by (auto simp: sealing_def)

lemma moved_inj:
  assumes s: "sealing F H fs"
    and p: "p \<in> fst ` set fs" and q: "q \<in> fst ` set fs"
    and e: "moved F H M p = moved F H M q"
  shows "p = q"
proof (cases p rule: moved_cases [where F = F and H = H and M = M])
  case (under c r)
  show ?thesis
  proof (cases q rule: moved_cases [where F = F and H = H and M = M])
    case u: (under c' r')
    with under e show ?thesis by simp
  next
    case other
    with under e have "q = H @ c # r" by simp
    with sealing_not_under [OF s q] show ?thesis by blast
  qed
next
  case other
  show ?thesis
  proof (cases q rule: moved_cases [where F = F and H = H and M = M])
    case (under c r)
    with other e have "p = H @ c # r" by simp
    with sealing_not_under [OF s p] show ?thesis by blast
  next
    case o: other
    with other e show ?thesis by simp
  qed
qed

lemma lookup_moved:
  assumes s: "sealing F H fs" and p: "p \<in> fst ` set fs"
  shows "lookup (moved_fs F H M fs) (moved F H M p) = lookup fs p"
proof -
  have "\<forall>q \<in> fst ` set fs. moved F H M q = moved F H M p \<longrightarrow> q = p"
    using moved_inj [OF s _ p] by blast
  from map_of_map_keys [where f = "moved F H M", OF this]
  have "map_of (moved_fs F H M fs) (moved F H M p) = map_of fs p"
    by (simp add: moved_fs_def)
  moreover from s p have "p \<noteq> []" by (force simp: sealing_def)
  moreover from this s have "moved F H M p \<noteq> []"
    by (cases p rule: moved_cases [where F = F and H = H and M = M]) (auto simp: sealing_def)
  ultimately show ?thesis by (simp add: lookup_def)
qed

lemma lookup_moved_None:
  assumes "q \<notin> moved F H M ` fst ` set fs" and "q \<noteq> []"
  shows "lookup (moved_fs F H M fs) q = None"
  using map_of_map_keys_None [OF assms(1)] assms(2) by (simp add: moved_fs_def lookup_def)

lemma lookup_moved_root: "lookup (moved_fs F H M fs) [] = Some Dir"
  by (simp add: lookup_def)

text \<open>Paths the moves leave where they are.\<close>

lemma moved_fixed: "\<forall>c \<in> M. \<not> prefix (F @ [c]) p \<Longrightarrow> moved F H M p = p"
  by (simp add: moved_def)

lemma lookup_moved_fixed:
  assumes s: "sealing F H fs" and f: "\<forall>c \<in> M. \<not> prefix (F @ [c]) p"
    and k: "p = [] \<or> p \<in> fst ` set fs"
  shows "lookup (moved_fs F H M fs) p = lookup fs p"
proof (cases "p = []")
  case True
  then show ?thesis by (simp add: lookup_def)
next
  case False
  with k have "p \<in> fst ` set fs" by simp
  from lookup_moved [OF s this, of M] f show ?thesis by (simp add: moved_fixed)
qed


lemma prefix_snoc_same: "prefix (A @ [c]) (B @ [c]) \<longleftrightarrow> prefix (A @ [c]) B \<or> A = B"
  by (auto simp: prefix_snoc)

lemma rename_step_forward:
  assumes s: "sealing F H fs" and np: "\<not> prefix (F @ [c]) H"
  shows "rename_tree (F @ [c]) (H @ [c]) (moved_fs F H M fs) = moved_fs F H (insert c M) fs"
proof -
  have "reprefix (F @ [c]) (H @ [c]) (moved F H M p) = moved F H (insert c M) p" for p
  proof (cases p rule: moved_cases [where F = F and H = H and M = M])
    case (under c' r)
    have "\<not> prefix (F @ [c]) (H @ c' # r)"
    proof
      assume "prefix (F @ [c]) (H @ c' # r)"
      moreover have "prefix H (H @ c' # r)" by simp
      ultimately have "prefix (F @ [c]) H \<or> prefix H (F @ [c])"
        by (rule prefix_same_cases)
      with np have "prefix H (F @ [c])" by blast
      then have "prefix H F \<or> H = F @ [c]" by (auto simp: prefix_snoc)
      with s np show False by (auto simp: sealing_def)
    qed
    with under show ?thesis by (simp add: reprefix_def moved_under)
  next
    case other
    show ?thesis
    proof (cases "prefix (F @ [c]) p")
      case True
      then obtain r where "p = F @ c # r" by (auto simp: prefix_def)
      with other show ?thesis by (simp add: reprefix_def moved_under)
    next
      case False
      with other show ?thesis by (simp add: reprefix_def moved_def)
    qed
  qed
  then show ?thesis by (simp add: rename_tree_def moved_fs_def case_prod_unfold)
qed

lemma rename_step_backward:
  assumes s: "sealing F H fs" and c: "c \<in> M"
  shows "rename_tree (H @ [c]) (F @ [c]) (moved_fs F H M fs) = moved_fs F H (M - {c}) fs"
proof -
  have "reprefix (H @ [c]) (F @ [c]) (moved F H M p) = moved F H (M - {c}) p"
    if p: "p \<in> fst ` set fs" for p
  proof (cases p rule: moved_cases [where F = F and H = H and M = M])
    case (under c' r)
    show ?thesis
    proof (cases "c' = c")
      case True
      have "moved F H (M - {c}) (F @ c # r) = F @ c # r"
        by (rule moved_fixed) simp
      with under True show ?thesis by (simp add: reprefix_def)
    next
      case False
      with under have "moved F H (M - {c}) p = H @ c' # r" by (simp add: moved_under)
      with under False show ?thesis by (simp add: reprefix_def)
    qed
  next
    case other
    have "\<not> prefix (H @ [c]) p"
      using sealing_not_under [OF s p] by (auto simp: prefix_def)
    moreover from other have "moved F H (M - {c}) p = p" by (simp add: moved_def)
    ultimately show ?thesis using other by (simp add: reprefix_def)
  qed
  then show ?thesis
    by (auto simp: rename_tree_def moved_fs_def case_prod_unfold)
qed

lemma sealing_H_key: "sealing F H fs \<Longrightarrow> H \<in> fst ` set fs"
  by (auto simp: sealing_def is_dir_def lookup_def dest!: map_of_SomeD intro: rev_image_eqI)

lemma sealing_F_key: "sealing F H fs \<Longrightarrow> F = [] \<or> F \<in> fst ` set fs"
  by (auto simp: sealing_def is_dir_def lookup_def dest!: map_of_SomeD intro: rev_image_eqI
      split: if_splits)

lemma moved_fs_vault:
  assumes s: "sealing F H fs" and MH: "\<forall>c \<in> M. \<not> prefix (F @ [c]) H"
  shows "is_dir (moved_fs F H M fs) H"
  using lookup_moved_fixed [OF s MH] sealing_H_key [OF s] s
  by (simp add: is_dir_def sealing_def)

lemma moved_fs_folder:
  assumes s: "sealing F H fs"
  shows "is_dir (moved_fs F H M fs) F"
proof -
  have "\<forall>c \<in> M. \<not> prefix (F @ [c]) F" by (auto dest: prefix_length_le)
  from lookup_moved_fixed [OF s this sealing_F_key [OF s]] s show ?thesis
    by (simp add: is_dir_def sealing_def)
qed

lemma moved_fs_vault_child:
  assumes s: "sealing F H fs" and k: "F @ [c] \<in> fst ` set fs"
  shows "path_exists (moved_fs F H M fs) (H @ [c]) \<longleftrightarrow> c \<in> M"
proof
  assume "c \<in> M"
  then have "moved F H M (F @ [c]) = H @ [c]" using moved_under [of c M F H "[]"] by simp
  with lookup_moved [OF s k, of M] k show "path_exists (moved_fs F H M fs) (H @ [c])"
    by (simp add: path_exists_def lookup_def map_of_eq_None_iff)
next
  assume e: "path_exists (moved_fs F H M fs) (H @ [c])"
  show "c \<in> M"
  proof (rule ccontr)
    assume n: "c \<notin> M"
    have "H @ [c] \<notin> moved F H M ` fst ` set fs"
    proof
      assume "H @ [c] \<in> moved F H M ` fst ` set fs"
      then obtain q where q: "q \<in> fst ` set fs" and "H @ [c] = moved F H M q"
        by (rule imageE)
      then have m: "moved F H M q = H @ [c]" by simp
      show False
      proof (cases q rule: moved_cases [where F = F and H = H and M = M])
        case (under c' r)
        with m n show ?thesis by simp
      next
        case other
        with m sealing_not_under [OF s q, of c "[]"] show ?thesis by simp
      qed
    qed
    from lookup_moved_None [OF this] e show False by (simp add: path_exists_def)
  qed
qed

lemma moved_fs_folder_child:
  assumes s: "sealing F H fs" and MH: "\<forall>c \<in> M. \<not> prefix (F @ [c]) H"
    and k: "F @ [c] \<in> fst ` set fs"
  shows "path_exists (moved_fs F H M fs) (F @ [c]) \<longleftrightarrow> c \<notin> M"
proof
  assume n: "c \<notin> M"
  then have "\<forall>c' \<in> M. \<not> prefix (F @ [c']) (F @ [c])" by auto
  from lookup_moved_fixed [OF s this] k show "path_exists (moved_fs F H M fs) (F @ [c])"
    by (simp add: path_exists_def lookup_def map_of_eq_None_iff)
next
  assume e: "path_exists (moved_fs F H M fs) (F @ [c])"
  show "c \<notin> M"
  proof
    assume c: "c \<in> M"
    have "F @ [c] \<notin> moved F H M ` fst ` set fs"
    proof
      assume "F @ [c] \<in> moved F H M ` fst ` set fs"
      then obtain q where q: "q \<in> fst ` set fs" and "F @ [c] = moved F H M q"
        by (rule imageE)
      then have m: "moved F H M q = F @ [c]" by simp
      show False
      proof (cases q rule: moved_cases [where F = F and H = H and M = M])
        case (under c' r)
        with m have "prefix H (F @ [c])" by (metis prefixI)
        then have "prefix H F \<or> H = F @ [c]" by (auto simp: prefix_snoc)
        with s MH c show ?thesis by (auto simp: sealing_def)
      next
        case other
        with m c show ?thesis by auto
      qed
    qed
    from lookup_moved_None [OF this] e show False by (simp add: path_exists_def)
  qed
qed


lemma shutil_move_forward:
  assumes s: "sealing F H fs" and MH: "\<forall>c \<in> M. \<not> prefix (F @ [c]) H"
    and n: "c \<notin> M" and k: "F @ [c] \<in> fst ` set fs"
  shows "shutil_move (F @ [c]) H (moved_fs F H M fs) =
    (if F @ [c] = H then Inr (moved_fs F H M fs)
     else if prefix (F @ [c]) H then Inl OSError
     else Inr (moved_fs F H (insert c M) fs))"
proof -
  let ?S = "moved_fs F H M fs"
  have dH: "is_dir ?S H" by (rule moved_fs_vault [OF s MH])
  then have eH: "path_exists ?S H" by (rule is_dir_exists)
  have eS: "path_exists ?S (F @ [c])"
    using moved_fs_folder_child [OF s MH k] n by simp
  have nD: "\<not> path_exists ?S (H @ [c])"
    using moved_fs_vault_child [OF s k] n by simp
  then have lD: "lookup ?S (H @ [c]) = None" by (simp add: path_exists_def)
  have FH: "F \<noteq> H" using s by (auto simp: sealing_def)
  show ?thesis
  proof (cases "F @ [c] = H")
    case True
    with dH eH show ?thesis by (simp add: shutil_move_def os_rename_def)
  next
    case False
    show ?thesis
    proof (cases "prefix (F @ [c]) H")
      case True
      with False dH eS nD FH show ?thesis
        by (simp add: shutil_move_def os_rename_def pathname_def prefix_snoc_same)
    next
      case np: False
      with False dH eH eS nD lD FH rename_step_forward [OF s np, of M] show ?thesis
        by (simp add: shutil_move_def os_rename_def pathname_def prefix_snoc_same butlast_append)
    qed
  qed
qed

lemma move_items_forward:
  assumes s: "sealing F H fs"
  shows "\<forall>c \<in> M. \<not> prefix (F @ [c]) H \<Longrightarrow> distinct cs \<Longrightarrow> set cs \<inter> M = {} \<Longrightarrow>
    \<forall>c \<in> set cs. F @ [c] \<in> fst ` set fs \<Longrightarrow>
    \<exists>n failed. move_items F cs H (moved_fs F H M fs) =
      (n, failed, moved_fs F H (M \<union> {c \<in> set cs. \<not> prefix (F @ [c]) H}) fs)"
proof (induction cs arbitrary: M)
  case Nil
  then show ?case by simp
next
  case (Cons c cs)
  from Cons.prems have n: "c \<notin> M" and k: "F @ [c] \<in> fst ` set fs" by auto
  note mv = shutil_move_forward [OF s Cons.prems(1) n k]
  show ?case
  proof (cases "prefix (F @ [c]) H")
    case True
    then have e: "M \<union> {c' \<in> set (c # cs). \<not> prefix (F @ [c']) H} =
        M \<union> {c' \<in> set cs. \<not> prefix (F @ [c']) H}"
      by auto
    from Cons.prems have "\<exists>n failed. move_items F cs H (moved_fs F H M fs) =
      (n, failed, moved_fs F H (M \<union> {c \<in> set cs. \<not> prefix (F @ [c]) H}) fs)"
      by (intro Cons.IH) auto
    then obtain n failed where "move_items F cs H (moved_fs F H M fs) =
      (n, failed, moved_fs F H (M \<union> {c \<in> set cs. \<not> prefix (F @ [c]) H}) fs)"
      by blast
    with True mv show ?thesis unfolding e by (cases "F @ [c] = H") simp_all
  next
    case False
    then have e: "M \<union> {c' \<in> set (c # cs). \<not> prefix (F @ [c']) H} =
        insert c M \<union> {c' \<in> set cs. \<not> prefix (F @ [c']) H}"
      by auto
    from False have "F @ [c] \<noteq> H" by auto
    with False mv have m: "shutil_move (F @ [c]) H (moved_fs F H M fs) =
        Inr (moved_fs F H (insert c M) fs)"
      by simp
    from Cons.prems False
    have "\<exists>n failed. move_items F cs H (moved_fs F H (insert c M) fs) =
      (n, failed, moved_fs F H (insert c M \<union> {c \<in> set cs. \<not> prefix (F @ [c]) H}) fs)"
      by (intro Cons.IH) auto
    then obtain n failed where "move_items F cs H (moved_fs F H (insert c M) fs) =
      (n, failed, moved_fs F H (insert c M \<union> {c \<in> set cs. \<not> prefix (F @ [c]) H}) fs)"
      by blast
    with m show ?thesis unfolding e by simp
  qed
qed

lemma shutil_move_backward:
  assumes s: "sealing F H fs" and MH: "\<forall>c \<in> M. \<not> prefix (F @ [c]) H"
    and c: "c \<in> M" and k: "F @ [c] \<in> fst ` set fs"
  shows "shutil_move (H @ [c]) F (moved_fs F H M fs) = Inr (moved_fs F H (M - {c}) fs)"
proof -
  let ?S = "moved_fs F H M fs"
  have dF: "is_dir ?S F" by (rule moved_fs_folder [OF s])
  then have eF: "path_exists ?S F" by (rule is_dir_exists)
  have eS: "path_exists ?S (H @ [c])"
    using moved_fs_vault_child [OF s k] c by simp
  have nD: "\<not> path_exists ?S (F @ [c])"
    using moved_fs_folder_child [OF s MH k] c by simp
  then have lD: "lookup ?S (F @ [c]) = None" by (simp add: path_exists_def)
  have HF: "H \<noteq> F" "H @ [c] \<noteq> F" "\<not> prefix (H @ [c]) F"
    using s by (auto simp: sealing_def dest: append_prefixD)
  with dF eF eS nD lD rename_step_backward [OF s c] show ?thesis
    by (simp add: shutil_move_def os_rename_def pathname_def prefix_snoc_same butlast_append)
qed

lemma move_items_backward:
  assumes s: "sealing F H fs"
  shows "\<forall>c \<in> M. \<not> prefix (F @ [c]) H \<Longrightarrow> distinct ms \<Longrightarrow> set ms \<subseteq> M \<Longrightarrow>
    \<forall>c \<in> M. F @ [c] \<in> fst ` set fs \<Longrightarrow>
    move_items H ms F (moved_fs F H M fs) = (length ms, [], moved_fs F H (M - set ms) fs)"
proof (induction ms arbitrary: M)
  case Nil
  then show ?case by simp
next
  case (Cons c ms)
  from Cons.prems have c: "c \<in> M" and k: "F @ [c] \<in> fst ` set fs" by auto
  note mv = shutil_move_backward [OF s Cons.prems(1) c k]
  from Cons.prems have "move_items H ms F (moved_fs F H (M - {c}) fs) =
      (length ms, [], moved_fs F H (M - {c} - set ms) fs)"
    by (intro Cons.IH) auto
  moreover have "M - {c} - set ms = M - set (c # ms)" by auto
  ultimately show ?case using mv by simp
qed

lemma children_distinct: "distinct (map fst fs) \<Longrightarrow> distinct (children fs d)"
proof (induction fs)
  case Nil
  then show ?case by (simp add: children_def)
next
  case (Cons a fs)
  obtain q n where a: "a = (q, n)" by (cases a)
  from Cons have ih: "distinct (children fs d)" and nk: "q \<notin> fst ` set fs" by (auto simp: a)
  show ?case
  proof (cases "q \<noteq> [] \<and> butlast q = d")
    case True
    then have q: "q = d @ [last q]" by (metis append_butlast_last_id)
    have "last q \<notin> set (children fs d)"
    proof
      assume "last q \<in> set (children fs d)"
      then have "path_exists fs (d @ [last q])" by (simp add: children_set)
      with q nk show False by (simp add: path_exists_iff)
    qed
    with ih True a show ?thesis by (simp add: children_def)
  next
    case False
    with ih a show ?thesis by (auto simp: children_def)
  qed
qed

lemma mkdir_fresh:
  assumes "mkdir H False fs = Inr fs'"
  shows "fs' = fs @ [(H, Dir)] \<and> \<not> path_exists fs H \<and> is_dir fs (butlast H)"
  using assms by (auto simp: mkdir_def split: if_splits)

lemma mkdir_new:
  "\<not> path_exists fs H \<Longrightarrow> is_dir fs (butlast H) \<Longrightarrow> mkdir H ok fs = Inr (fs @ [(H, Dir)])"
  by (simp add: mkdir_def is_dir_exists)

lemma sealing_fresh:
  assumes wf: "wf_fs fs" and dF: "is_dir fs F" and nH: "\<not> path_exists fs H"
  shows "sealing F H (fs @ [(H, Dir)])"
proof -
  from nH have Hk: "H \<notin> fst ` set fs" and Hne: "H \<noteq> []" by (auto simp: path_exists_iff)
  from wf have d: "distinct (map fst fs)" and r: "[] \<notin> fst ` set fs"
    by (auto simp: wf_fs_def)
  have np: "\<not> prefix H q" if "path_exists fs q" for q
    using wf_prefix_exists [OF wf that, of H] nH by blast
  from np [OF is_dir_exists [OF dF]] have "\<not> prefix H F" .
  moreover have "\<forall>q \<in> fst ` set (fs @ [(H, Dir)]). prefix H q \<longrightarrow> q = H"
    using np by (auto simp: path_exists_iff)
  moreover have "is_dir (fs @ [(H, Dir)]) H" "is_dir (fs @ [(H, Dir)]) F"
    using dF nH by (auto simp: is_dir_def lookup_append_new path_exists_def)
  ultimately show ?thesis using d r Hk Hne by (simp add: sealing_def)
qed

lemma update_existing_keys:
  "k \<in> fst ` set al \<Longrightarrow> map fst (AList.update k v al) = map fst al"
  by (simp add: update_keys)

lemma update_append_existing:
  "k \<in> fst ` set al \<Longrightarrow> AList.update k v (al @ bl) = AList.update k v al @ bl"
  by (induction al) auto

lemma sealing_update:
  assumes s: "sealing F H fs" and l: "lookup fs k = Some (File c)"
  shows "sealing F H (AList.update k (File v) fs)"
proof -
  from l have kne: "k \<noteq> []" by (auto simp: lookup_def split: if_splits)
  with l have kk: "k \<in> fst ` set fs"
    by (auto simp: lookup_def dest!: map_of_SomeD intro: rev_image_eqI)
  have keys: "map fst (AList.update k (File v) fs) = map fst fs"
    by (rule update_existing_keys [OF kk])
  then have ks: "fst ` set (AList.update k (File v) fs) = fst ` set fs"
    by (metis image_set)
  have "is_dir (AList.update k (File v) fs) x" if "is_dir fs x" for x
    using that l kne by (auto simp: is_dir_def lookup_update)
  with s keys ks show ?thesis by (simp add: sealing_def)
qed

lemma moved_fs_update:
  assumes "moved F H M k = k" and "\<forall>q \<in> fst ` set fs. moved F H M q = k \<longrightarrow> q = k"
  shows "AList.update k v (moved_fs F H M fs) = moved_fs F H M (AList.update k v fs)"
  using assms by (induction fs) (auto simp: moved_fs_def)

lemma moved_fs_distinct:
  assumes s: "sealing F H fs"
  shows "distinct (map fst (moved_fs F H M fs))"
proof -
  have "map fst (moved_fs F H M fs) = map (moved F H M) (map fst fs)"
    by (simp add: moved_fs_def case_prod_unfold comp_def)
  moreover have "distinct (map (moved F H M) (map fst fs))"
  proof (subst distinct_map, intro conjI)
    show "distinct (map fst fs)" using s by (simp add: sealing_def)
    show "inj_on (moved F H M) (set (map fst fs))"
      using moved_inj [OF s] by (auto intro!: inj_onI)
  qed
  ultimately show ?thesis by simp
qed

lemma moved_fs_vault_children:
  assumes s: "sealing F H fs" and k: "\<forall>c \<in> M. F @ [c] \<in> fst ` set fs"
  shows "distinct (children (moved_fs F H M fs) H) \<and> set (children (moved_fs F H M fs) H) = M"
proof -
  have "path_exists (moved_fs F H M fs) (H @ [c]) \<longleftrightarrow> c \<in> M" for c
  proof
    assume c: "c \<in> M"
    with k have "F @ [c] \<in> fst ` set fs" by blast
    from moved_fs_vault_child [OF s this, of M] c
    show "path_exists (moved_fs F H M fs) (H @ [c])" by simp
  next
    assume e: "path_exists (moved_fs F H M fs) (H @ [c])"
    show "c \<in> M"
    proof (rule ccontr)
      assume n: "c \<notin> M"
      have "H @ [c] \<notin> moved F H M ` fst ` set fs"
      proof
        assume "H @ [c] \<in> moved F H M ` fst ` set fs"
        then obtain q where q: "q \<in> fst ` set fs" and "H @ [c] = moved F H M q"
          by (rule imageE)
        then have m: "moved F H M q = H @ [c]" by simp
        show False
        proof (cases q rule: moved_cases [where F = F and H = H and M = M])
          case (under c' r)
          with m n show ?thesis by simp
        next
          case other
          with m sealing_not_under [OF s q, of c "[]"] show ?thesis by simp
        qed
      qed
      from lookup_moved_None [OF this] e show False by (simp add: path_exists_def)
    qed
  qed
  then have "set (children (moved_fs F H M fs) H) = M" by (simp add: children_set)
  with children_distinct [OF moved_fs_distinct [OF s]] show ?thesis by blast
qed

lemma sealing_vault_empty: "sealing F H fs \<Longrightarrow> children fs H = []"
proof -
  assume s: "sealing F H fs"
  have "set (children fs H) = {}"
    using sealing_not_under [OF s, of _ _ "[]"] by (auto simp: children_set path_exists_iff)
  then show ?thesis by simp
qed

lemma lookup_moved_away:
  assumes s: "sealing F H fs" and mv: "\<exists>c \<in> M. prefix (F @ [c]) p" and np: "\<not> prefix H p"
  shows "lookup (moved_fs F H M fs) p = None"
proof -
  from mv have pne: "p \<noteq> []" by auto
  have "p \<notin> moved F H M ` fst ` set fs"
  proof
    assume "p \<in> moved F H M ` fst ` set fs"
    then obtain q where q: "q \<in> fst ` set fs" and "p = moved F H M q" by (rule imageE)
    then have m: "moved F H M q = p" by simp
    show False
    proof (cases q rule: moved_cases [where F = F and H = H and M = M])
      case (under c r)
      with m np show ?thesis by auto
    next
      case other
      with m mv show ?thesis by auto
    qed
  qed
  from lookup_moved_None [OF this pne] show ?thesis .
qed

lemma lookup_key: "lookup fs p = Some (File c) \<Longrightarrow> p \<noteq> [] \<and> p \<in> fst ` set fs"
  by (auto simp: lookup_def dest!: map_of_SomeD intro: rev_image_eqI split: if_splits)

section \<open>Unlocking one folder once the vault is listed\<close>

lemma unlock_folder_after_listing:
  assumes wf: "wf_fs fs" and self: "self = FolderLock_paths d"
    and cred: "load_credential (user_hash_file self) fs = Inr c" and pw: "verify_password pw c"
    and reg: "load_registry (lock_status_file self) fs = Inr reg"
    and locked: "map_of reg folder = Some info"
    and vault: "hidden_path info = hidden_dir self @ [h]"
    and vault_exists: "path_exists fs (hidden_path info)"
    and mk: "mkdir folder True fs = Inr fs_m"
    and it: "iterdir (hidden_path info) fs_m = Inr items"
  shows "\<exists>n failed fs_r fs'.
      move_items (hidden_path info) items folder fs_m = (n, failed, fs_r)
      \<and> unlock_folder self folder pw fs =
          (Returned True, map Warning_could_not_restore failed @ [Unlocked_successfully n], fs')
      \<and> load_registry (lock_status_file self) fs' = Inr (AList.delete folder reg)
      \<and> folder \<notin> fst ` set (AList.delete folder reg)
      \<and> (\<forall>q. q \<noteq> lock_status_file self \<longrightarrow>
            lookup fs' q =
            lookup (case rmdir (hidden_path info) fs_r of Inl e \<Rightarrow> fs_r | Inr fs_d \<Rightarrow> fs_d) q)"
proof -
  let ?lsf = "lock_status_file self" and ?hidden = "hidden_path info"
  obtain n failed fs_r where mv: "move_items ?hidden items folder fs_m = (n, failed, fs_r)"
    by (cases "move_items ?hidden items folder fs_m") auto
  define fs_d where "fs_d = (case rmdir ?hidden fs_r of Inl e \<Rightarrow> fs_r | Inr f \<Rightarrow> f)"
  define fs' where "fs' = AList.update ?lsf (File (Registry_json (AList.delete folder reg))) fs_d"
  from reg have l0: "lookup fs ?lsf = Some (File (Registry_json reg))"
    by (simp add: load_registry_lookup)
  then have e0: "path_exists fs ?lsf" by (simp add: path_exists_def)
  note m = mkdir_preserves [OF wf mk]
  from m(3) [OF e0] l0 have l1: "lookup fs_m ?lsf = Some (File (Registry_json reg))" by simp
  then have e1: "path_exists fs_m ?lsf" by (simp add: path_exists_def)
  have len: "length ?lsf \<le> length ?hidden" and ne: "?lsf \<noteq> ?hidden" and lne: "?lsf \<noteq> []"
    using self vault by (auto simp: FolderLock_paths_def)
  from move_items_preserves [OF m(1,2) mv] e1 len l1
  have l2: "lookup fs_r ?lsf = Some (File (Registry_json reg))" and w2: "wf_fs fs_r"
    by auto
  have l3: "lookup fs_d ?lsf = Some (File (Registry_json reg))"
  proof (cases "rmdir ?hidden fs_r")
    case (Inl e)
    with l2 show ?thesis by (simp add: fs_d_def)
  next
    case (Inr f)
    from rmdir_wf(2) [OF w2 Inr, of ?lsf] l2 ne Inr show ?thesis by (simp add: fs_d_def)
  qed
  then have w: "write_json ?lsf (Registry_json (AList.delete folder reg)) fs_d = Inr fs'"
    unfolding fs'_def by (rule write_json_file)
  have a: "authenticate_user self pw fs = (Returned True, [])"
    using cred pw by (rule authenticate_user_True)
  have r: "unlock_folder self folder pw fs =
      (Returned True, map Warning_could_not_restore failed @ [Unlocked_successfully n], fs')"
    using a reg locked vault_exists mk it mv w
    by (simp add: unlock_folder_def fs_d_def)
  have "load_registry ?lsf fs' = Inr (AList.delete folder reg)"
    using lne by (simp add: load_registry_lookup fs'_def lookup_update)
  moreover have "folder \<notin> fst ` set (AList.delete folder reg)"
    by (rule delete_notin_dom)
  moreover have "\<forall>q. q \<noteq> ?lsf \<longrightarrow> lookup fs' q = lookup fs_d q"
    using lne by (simp add: fs'_def lookup_update)
  ultimately show ?thesis using mv r unfolding fs_d_def by blast
qed

section \<open>Password verification and hash derivation\<close>

text \<open>
  Claim C2, as the code has it: verification recomputes the key derivation with the stored
  salt and compares the hexadecimal digests, so it succeeds exactly when the candidate and
  the password that was set derive the same key, and always for the password itself.
\<close>

theorem verify_password_derived_key:
  "verify_password p (hash_password src pw salt_arg) =
     (pbkdf2_hmac_sha256 (encode_utf8 p)
        (encode_utf8 (salt (hash_password src pw salt_arg))) 100000 =
      pbkdf2_hmac_sha256 (encode_utf8 pw)
        (encode_utf8 (salt (hash_password src pw salt_arg))) 100000)
   \<and> verify_password pw (hash_password src pw salt_arg)"
  by (simp add: verify_password_iff hash_password_def Let_def hex_eq_iff)

text \<open>
  Claim C2 as stated fails: HMAC fills its key with zero bytes up to the block length, so
  the password \<open>secret1\<close> followed by the character with code point 0, which differs from
  \<open>secret1\<close> in one character, verifies against the credential of \<open>secret1\<close>.
\<close>

theorem verify_password_accepts_other_string:
  "verify_password (''secret1'' @ [CHR 0x00]) (hash_password (\<lambda>i. 0) ''secret1'' None)
   \<and> ''secret1'' @ [CHR 0x00] \<noteq> ''secret1''"
proof -
  have e: "encode_utf8 (''secret1'' @ [CHR 0x00]) = encode_utf8 ''secret1'' @ [0]"
    by (simp add: encode_utf8_def encode_char_def)
  have l: "length (encode_utf8 ''secret1'') < 64"
    by (simp add: encode_utf8_def encode_char_def)
  have "hmac_key (encode_utf8 (''secret1'' @ [CHR 0x00])) = hmac_key (encode_utf8 ''secret1'')"
    unfolding e using l by (rule hmac_key_trailing_zero)
  then have "pbkdf2_hmac_sha256 (encode_utf8 (''secret1'' @ [CHR 0x00])) s n =
             pbkdf2_hmac_sha256 (encode_utf8 ''secret1'') s n" for s n
    by (rule pbkdf2_key)
  then show ?thesis
    by (simp add: verify_password_iff hash_password_def Let_def)
qed

text \<open>
  Hash derivation. The credential is a function of the password and the salt alone, its
  hash being the hexadecimal text of PBKDF2-HMAC-SHA256 with 100000 iterations of the UTF-8
  bytes of the password and of the salt text. A fresh salt is the hexadecimal text of 32
  random bytes, so the key derivation is fed the 64 ASCII bytes of that text, not 32 bytes,
  and two fresh salts are equal only when the random bytes are. These are the facts on
  \<^verbatim>\<open>hash_password\<close> that are a matter of computation. That two credentials of one
  password with fresh salts have different hashes with overwhelming probability is a
  statement on the distribution of the derived key over random salts, which this
  development has no means to express.
\<close>

lemma hash_password_derivation:
  "hash_password src password (Some s) =
     \<lparr>salt = s, hash = hex (pbkdf2_hmac_sha256 (encode_utf8 password) (encode_utf8 s) 100000)\<rparr>
   \<and> hash_password src password None = hash_password src' password (Some (hex (os_urandom src 32)))
   \<and> length (os_urandom src 32) = 32
   \<and> length (encode_utf8 (salt (hash_password src password None))) = 64
   \<and> (salt (hash_password src password None) = salt (hash_password src' password None)) =
       (os_urandom src 32 = os_urandom src' 32)"
  by (simp add: hash_password_def generate_salt_def Let_def hex_eq_iff length_encode_hex
      os_urandom_def)

lemma hash_password_salt_not_32_bytes:
  "length (encode_utf8 (salt (hash_password (\<lambda>i. 0) ''secret1'' None))) \<noteq> 32"
  by (simp add: hash_password_def generate_salt_def Let_def length_encode_hex os_urandom_def)

section \<open>Lock, unlock and setup: preconditions and failures\<close>

text \<open>
  Claim C6, as the code has it: \<^verbatim>\<open>lock_folder\<close> reports a path that does not exist or
  is no directory, a password that does not verify against the user's credential, and a
  folder that is already in the registry, each time leaving the file system (the registry
  file with it) as it was; whenever the file system is changed or the call returns true,
  the folder is a directory, the password verifies and the folder was not in the registry;
  and a call that returns true has written the registry with the new entry. The first
  statement is about a path without a component \<open>..\<close>, which the model does not resolve.
\<close>

theorem lock_folder_preconditions:
  "(\<not> path_exists fs folder \<and> ''..'' \<notin> set folder \<longrightarrow>
      lock_folder self folder pw ts now fs = (Returned False, [Error_does_not_exist], fs))
   \<and> (path_exists fs folder \<and> \<not> is_dir fs folder \<longrightarrow>
      lock_folder self folder pw ts now fs = (Returned False, [Error_not_a_folder], fs))
   \<and> (is_dir fs folder \<and> load_credential (user_hash_file self) fs = Inr c
        \<and> \<not> verify_password pw c \<longrightarrow>
      lock_folder self folder pw ts now fs = (Returned False, [Authentication_failed], fs))
   \<and> (is_dir fs folder \<and> load_credential (user_hash_file self) fs = Inr c
        \<and> verify_password pw c \<and> load_registry (lock_status_file self) fs = Inr reg
        \<and> folder \<in> fst ` set reg \<longrightarrow>
      lock_folder self folder pw ts now fs = (Returned False, [Error_already_locked], fs))
   \<and> (snd (snd (lock_folder self folder pw ts now fs)) \<noteq> fs
        \<or> fst (lock_folder self folder pw ts now fs) = Returned True \<longrightarrow>
      is_dir fs folder
      \<and> (\<exists>c'. load_credential (user_hash_file self) fs = Inr c' \<and> verify_password pw c')
      \<and> (\<exists>reg'. load_registry (lock_status_file self) fs = Inr reg' \<and> folder \<notin> fst ` set reg'))
   \<and> (lock_folder self folder pw ts now fs = (Returned True, ms, fs') \<longrightarrow>
      (\<exists>reg' n. load_registry (lock_status_file self) fs = Inr reg'
         \<and> load_registry (lock_status_file self) fs' =
             Inr (AList.update folder
                    \<lparr>hidden_path = hidden_dir self @ [pathname folder @ ''_'' @ ts],
                     locked_at = now, items_count = n\<rparr> reg')))"
proof (intro conjI impI)
  assume "\<not> path_exists fs folder \<and> ''..'' \<notin> set folder"
  then show "lock_folder self folder pw ts now fs = (Returned False, [Error_does_not_exist], fs)"
    by (simp add: lock_folder_def)
next
  assume "path_exists fs folder \<and> \<not> is_dir fs folder"
  then show "lock_folder self folder pw ts now fs = (Returned False, [Error_not_a_folder], fs)"
    by (simp add: lock_folder_def)
next
  assume a: "is_dir fs folder \<and> load_credential (user_hash_file self) fs = Inr c
        \<and> \<not> verify_password pw c"
  then have "path_exists fs folder" by (simp add: is_dir_def path_exists_def)
  with a show "lock_folder self folder pw ts now fs = (Returned False, [Authentication_failed], fs)"
    by (simp add: lock_folder_def authenticate_user_False)
next
  assume a: "is_dir fs folder \<and> load_credential (user_hash_file self) fs = Inr c
        \<and> verify_password pw c \<and> load_registry (lock_status_file self) fs = Inr reg
        \<and> folder \<in> fst ` set reg"
  then have "path_exists fs folder" by (simp add: is_dir_def path_exists_def)
  with a show "lock_folder self folder pw ts now fs = (Returned False, [Error_already_locked], fs)"
    by (simp add: lock_folder_def authenticate_user_True)
next
  assume a: "snd (snd (lock_folder self folder pw ts now fs)) \<noteq> fs
        \<or> fst (lock_folder self folder pw ts now fs) = Returned True"
  show "is_dir fs folder"
    using a by (auto simp: lock_folder_def split: if_splits)
  show "\<exists>c'. load_credential (user_hash_file self) fs = Inr c' \<and> verify_password pw c'"
    using a
    by (auto simp: lock_folder_def authenticate_user_def
        split: if_splits sum.splits prod.splits outcome.splits bool.splits)
  show "\<exists>reg'. load_registry (lock_status_file self) fs = Inr reg' \<and> folder \<notin> fst ` set reg'"
    using a
    by (auto simp: lock_folder_def
        split: if_splits sum.splits prod.splits outcome.splits bool.splits)
next
  assume a: "lock_folder self folder pw ts now fs = (Returned True, ms, fs')"
  then show "\<exists>reg' n. load_registry (lock_status_file self) fs = Inr reg'
         \<and> load_registry (lock_status_file self) fs' =
             Inr (AList.update folder
                    \<lparr>hidden_path = hidden_dir self @ [pathname folder @ ''_'' @ ts],
                     locked_at = now, items_count = n\<rparr> reg')"
    by (auto simp: lock_folder_def Let_def load_registry_lookup write_json_lookup
        split: if_splits sum.splits prod.splits outcome.splits bool.splits)
qed

theorem lock_folder_preconditions_witness:
  "lock_folder tool [''tmp'', ''missing''] ''secret1'' ''20260101_120000'' ''2026-01-01T12:00:00''
      fs_setup = (Returned False, [Error_does_not_exist], fs_setup)
   \<and> lock_folder tool [''tmp'', ''x'', ''a.txt''] ''secret1'' ''20260101_120000''
      ''2026-01-01T12:00:00'' fs_setup = (Returned False, [Error_not_a_folder], fs_setup)
   \<and> lock_folder tool [''tmp'', ''x''] ''hunter2'' ''20260101_120000'' ''2026-01-01T12:00:00''
      fs_stale_cred = (Returned False, [Authentication_failed], fs_stale_cred)
   \<and> lock_folder tool [''tmp'', ''x''] ''secret1'' ''20260101_120000'' ''2026-01-01T12:00:00''
      fs_locked = (Returned False, [Error_already_locked], fs_locked)
   \<and> lock_folder tool [''tmp'', ''x''] ''secret1'' ''20260101_120000'' ''2026-01-01T12:00:00''
      fs_setup = (Returned True, [Locked_successfully 2], fs_locked)
   \<and> load_registry (lock_status_file tool) fs_locked = Inr [([''tmp'', ''x''], entry_x)]"
proof -
  note t = lock_folder_preconditions
    [where self = tool and pw = "''secret1''" and ts = "''20260101_120000''"
       and now = "''2026-01-01T12:00:00''"]
  have 1: "lock_folder tool [''tmp'', ''missing''] ''secret1'' ''20260101_120000''
      ''2026-01-01T12:00:00'' fs_setup = (Returned False, [Error_does_not_exist], fs_setup)"
    using t [where fs = fs_setup and folder = "[''tmp'', ''missing'']"]
    by (simp add: fs_eval fs_setup_def)
  have 2: "lock_folder tool [''tmp'', ''x'', ''a.txt''] ''secret1'' ''20260101_120000''
      ''2026-01-01T12:00:00'' fs_setup = (Returned False, [Error_not_a_folder], fs_setup)"
    using t [where fs = fs_setup and folder = "[''tmp'', ''x'', ''a.txt'']"]
    by (simp add: fs_eval fs_setup_def)
  have 3: "lock_folder tool [''tmp'', ''x''] ''hunter2'' ''20260101_120000''
      ''2026-01-01T12:00:00'' fs_stale_cred = (Returned False, [Authentication_failed], fs_stale_cred)"
    using lock_folder_preconditions
      [where self = tool and pw = "''hunter2''" and ts = "''20260101_120000''"
         and now = "''2026-01-01T12:00:00''" and fs = fs_stale_cred
         and folder = "[''tmp'', ''x'']" and c = stale_cred]
    by (simp add: fs_eval fs_stale_cred_def fs_setup_def stale_cred_fails)
  have 4: "lock_folder tool [''tmp'', ''x''] ''secret1'' ''20260101_120000''
      ''2026-01-01T12:00:00'' fs_locked = (Returned False, [Error_already_locked], fs_locked)"
    using t [where fs = fs_locked and folder = "[''tmp'', ''x'']" and c = user_cred
        and reg = "[([''tmp'', ''x''], entry_x)]"]
    by (simp add: fs_eval fs_locked_def user_cred_ok)
  have 5: "lock_folder tool [''tmp'', ''x''] ''secret1'' ''20260101_120000''
      ''2026-01-01T12:00:00'' fs_setup = (Returned True, [Locked_successfully 2], fs_locked)"
    by (simp add: lock_folder_def fs_eval fs_setup_def fs_locked_def entry_x_def user_cred_ok)
  have 6: "load_registry (lock_status_file tool) fs_locked = Inr [([''tmp'', ''x''], entry_x)]"
    by (simp add: fs_eval fs_locked_def)
  from 1 2 3 4 5 6 show ?thesis by blast
qed

text \<open>
  Claim C6 as stated fails: a wrong user password is not always refused. The user's
  password is \<open>secret1\<close>; the string \<open>secret1\<close> followed by the character with code point
  0 is another password, which derives the same key (HMAC fills its key with zero bytes),
  and with it \<^verbatim>\<open>lock_folder\<close> seals \<open>/tmp/x\<close> as it does with the right one.
\<close>

theorem lock_folder_accepts_other_password:
  "lock_folder tool [''tmp'', ''x''] (''secret1'' @ [CHR 0x00]) ''20260101_120000''
     ''2026-01-01T12:00:00'' fs_setup = (Returned True, [Locked_successfully 2], fs_locked)
   \<and> ''secret1'' @ [CHR 0x00] \<noteq> ''secret1''
   \<and> load_credential (user_hash_file tool) fs_setup = Inr (hash_password (\<lambda>i. 2) ''secret1'' None)
   \<and> fs_locked \<noteq> fs_setup"
proof -
  have "lock_folder tool [''tmp'', ''x''] (''secret1'' @ [CHR 0x00]) ''20260101_120000''
     ''2026-01-01T12:00:00'' fs_setup = (Returned True, [Locked_successfully 2], fs_locked)"
    using user_cred_nul
    by (simp add: lock_folder_def fs_eval fs_setup_def fs_locked_def entry_x_def)
  moreover have "load_credential (user_hash_file tool) fs_setup =
      Inr (hash_password (\<lambda>i. 2) ''secret1'' None)"
    by (simp add: fs_eval fs_setup_def user_cred_def)
  moreover have "fs_locked \<noteq> fs_setup"
    by (simp add: fs_locked_def fs_setup_def)
  ultimately show ?thesis by simp
qed

text \<open>
  Claim C7: when the registry records for the folder a vault path that does not exist,
  \<^verbatim>\<open>unlock_folder\<close> changes nothing, whatever the password, and does not return true;
  with the right password it reports that the hidden data was not found.
\<close>

theorem unlock_folder_vault_missing:
  "load_registry (lock_status_file self) fs = Inr reg \<and> map_of reg folder = Some info
     \<and> \<not> path_exists fs (hidden_path info) \<longrightarrow>
   snd (snd (unlock_folder self folder pw fs)) = fs
   \<and> fst (unlock_folder self folder pw fs) \<noteq> Returned True
   \<and> (load_credential (user_hash_file self) fs = Inr c \<and> verify_password pw c \<longrightarrow>
        unlock_folder self folder pw fs = (Returned False, [Error_hidden_data_not_found], fs))"
  by (auto simp: unlock_folder_def authenticate_user_True
      split: prod.splits outcome.splits bool.splits)

theorem unlock_folder_vault_missing_witness:
  "unlock_folder tool [''tmp'', ''x''] ''secret1'' fs_vault_missing =
     (Returned False, [Error_hidden_data_not_found], fs_vault_missing)
   \<and> load_registry (lock_status_file tool) fs_vault_missing = Inr [([''tmp'', ''x''], entry_x)]"
  using unlock_folder_vault_missing
    [of tool fs_vault_missing "[([''tmp'', ''x''], entry_x)]" "[''tmp'', ''x'']" entry_x
        "''secret1''" user_cred]
  by (simp add: fs_eval fs_vault_missing_def fs_locked_def user_cred_ok entry_x_def)

text \<open>
  Claim C4, as the code has it: when the registry file is missing, reading it raises
  \<^verbatim>\<open>FileNotFoundError\<close>, which nothing catches; \<^verbatim>\<open>show_lock_status\<close>, and
  \<^verbatim>\<open>lock_folder\<close>, \<^verbatim>\<open>unlock_folder\<close> and \<^verbatim>\<open>unlock_all_folders\<close> once they
  get to the registry, end with this exception and leave the file system unchanged.
\<close>

theorem missing_registry_raises:
  "\<not> path_exists fs (lock_status_file self) \<longrightarrow>
   show_lock_status strftime self fs = (Raised FileNotFoundError, [])
   \<and> (is_dir fs folder \<and> load_credential (user_hash_file self) fs = Inr c
        \<and> verify_password pw c \<longrightarrow>
        lock_folder self folder pw ts now fs = (Raised FileNotFoundError, [], fs))
   \<and> (load_credential (user_hash_file self) fs = Inr c \<and> verify_password pw c \<longrightarrow>
        unlock_folder self folder pw fs = (Raised FileNotFoundError, [], fs))
   \<and> (map lower_char confirmation = ''yes'' \<longrightarrow>
        unlock_all_folders self confirmation fs = (Raised FileNotFoundError, [], fs))"
  by (auto simp: show_lock_status_def lock_folder_def unlock_folder_def unlock_all_folders_def
      load_registry_missing authenticate_user_True is_dir_def path_exists_def)

theorem missing_registry_raises_witness:
  "show_lock_status Some tool fs_no_registry = (Raised FileNotFoundError, [])
   \<and> lock_folder tool [''tmp'', ''x''] ''secret1'' ''20260101_120000'' ''2026-01-01T12:00:00''
        fs_no_registry = (Raised FileNotFoundError, [], fs_no_registry)
   \<and> unlock_folder tool [''tmp'', ''x''] ''secret1'' fs_no_registry =
        (Raised FileNotFoundError, [], fs_no_registry)
   \<and> unlock_all_folders tool ''yes'' fs_no_registry =
        (Raised FileNotFoundError, [], fs_no_registry)"
  using missing_registry_raises
    [where fs = fs_no_registry and self = tool and folder = "[''tmp'', ''x'']" and c = user_cred
       and pw = "''secret1''" and ts = "''20260101_120000''" and now = "''2026-01-01T12:00:00''"
       and confirmation = "''yes''" and strftime = Some]
  by (simp add: fs_eval fs_no_registry_def fs_setup_def user_cred_ok lower_char_def)

text \<open>
  Claim C4 as stated fails: after setup with the registry file deleted, loading does not
  give the empty mapping; the status does not report that no folders are locked, and
  locking \<open>/tmp/x\<close> ends with the exception.
\<close>

theorem missing_registry_not_empty_mapping:
  "load_registry (lock_status_file tool) fs_no_registry = Inl FileNotFoundError
   \<and> show_lock_status Some tool fs_no_registry \<noteq> (Returned (), [No_folders_locked])
   \<and> fst (lock_folder tool [''tmp'', ''x''] ''secret1'' ''20260101_120000''
             ''2026-01-01T12:00:00'' fs_no_registry) = Raised FileNotFoundError"
  by (simp add: show_lock_status_def lock_folder_def fs_eval fs_no_registry_def fs_setup_def
      user_cred_ok)

text \<open>
  Claim C9: \<^verbatim>\<open>initial_setup\<close> refuses only when the admin credential file exists.
  When it does not, and the configuration directory is there, setup runs to the end whatever
  the user credential file and the registry file hold: it writes both credentials and an
  empty registry and touches no other path, so the vaults of earlier entries stay where
  they are with no entry pointing to them.
\<close>

theorem initial_setup_checks_admin_only:
  "(path_exists fs (admin_hash_file self) \<longrightarrow>
      initial_setup self inputs src_admin src_user fs = (Returned False, [Already_configured], fs))
   \<and> (self = FolderLock_paths d \<and> \<not> path_exists fs (admin_hash_file self)
        \<and> is_dir fs (config_dir self)
        \<and> lookup fs (user_hash_file self) \<noteq> Some Dir
        \<and> lookup fs (lock_status_file self) \<noteq> Some Dir
        \<and> prompt_new_password inputs = (msa, Some (admin_pass, rest))
        \<and> prompt_new_password rest = (msu, Some (user_pass, rest')) \<longrightarrow>
      (\<exists>fs'. initial_setup self inputs src_admin src_user fs =
               (Returned True, msa @ msu @ [Setup_complete], fs')
         \<and> load_credential (admin_hash_file self) fs' = Inr (hash_password src_admin admin_pass None)
         \<and> load_credential (user_hash_file self) fs' = Inr (hash_password src_user user_pass None)
         \<and> load_registry (lock_status_file self) fs' = Inr []
         \<and> (\<forall>p. p \<noteq> admin_hash_file self \<and> p \<noteq> user_hash_file self
                \<and> p \<noteq> lock_status_file self \<longrightarrow> lookup fs' p = lookup fs p)))"
proof (intro conjI impI)
  assume "path_exists fs (admin_hash_file self)"
  then show "initial_setup self inputs src_admin src_user fs =
      (Returned False, [Already_configured], fs)"
    by (simp add: initial_setup_def)
next
  assume a: "self = FolderLock_paths d \<and> \<not> path_exists fs (admin_hash_file self)
        \<and> is_dir fs (config_dir self)
        \<and> lookup fs (user_hash_file self) \<noteq> Some Dir
        \<and> lookup fs (lock_status_file self) \<noteq> Some Dir
        \<and> prompt_new_password inputs = (msa, Some (admin_pass, rest))
        \<and> prompt_new_password rest = (msu, Some (user_pass, rest'))"
  define ca where "ca = Credential_json (hash_password src_admin admin_pass None)"
  define cu where "cu = Credential_json (hash_password src_user user_pass None)"
  define fs1 where "fs1 = AList.update (admin_hash_file self) (File ca) fs"
  define fs2 where "fs2 = AList.update (user_hash_file self) (File cu) fs1"
  define fs3 where "fs3 = AList.update (lock_status_file self) (File (Registry_json [])) fs2"
  from a have s: "self = FolderLock_paths d"
    and na: "lookup fs (admin_hash_file self) = None"
    and dc: "is_dir fs (config_dir self)"
    and nu: "lookup fs (user_hash_file self) \<noteq> Some Dir"
    and nl: "lookup fs (lock_status_file self) \<noteq> Some Dir"
    and p1: "prompt_new_password inputs = (msa, Some (admin_pass, rest))"
    and p2: "prompt_new_password rest = (msu, Some (user_pass, rest'))"
    by (auto simp: path_exists_def)
  from s have paths:
    "butlast (admin_hash_file self) = config_dir self"
    "butlast (user_hash_file self) = config_dir self"
    "butlast (lock_status_file self) = config_dir self"
    "admin_hash_file self \<noteq> []" "user_hash_file self \<noteq> []" "lock_status_file self \<noteq> []"
    "admin_hash_file self \<noteq> user_hash_file self"
    "admin_hash_file self \<noteq> lock_status_file self"
    "user_hash_file self \<noteq> lock_status_file self"
    "config_dir self \<noteq> admin_hash_file self"
    "config_dir self \<noteq> user_hash_file self"
    "config_dir self \<noteq> lock_status_file self"
    by (simp_all add: FolderLock_paths_def butlast_append)
  have w1: "write_json (admin_hash_file self) ca fs = Inr fs1"
    unfolding fs1_def using na dc by (intro write_json_new) (simp_all add: paths)
  have d1: "is_dir fs1 (config_dir self)"
    using dc paths by (simp add: fs1_def is_dir_def lookup_update)
  have "lookup fs1 (user_hash_file self) \<noteq> Some Dir"
    using nu paths by (simp add: fs1_def lookup_update)
  then have w2: "write_json (user_hash_file self) cu fs1 = Inr fs2"
    unfolding fs2_def using d1 by (intro write_json_ok) (simp_all add: paths)
  have d2: "is_dir fs2 (config_dir self)"
    using d1 paths by (simp add: fs2_def is_dir_def lookup_update)
  have "lookup fs2 (lock_status_file self) \<noteq> Some Dir"
    using nl paths by (simp add: fs2_def fs1_def lookup_update)
  then have w3: "write_json (lock_status_file self) (Registry_json []) fs2 = Inr fs3"
    unfolding fs3_def using d2 by (intro write_json_ok) (simp_all add: paths)
  have r: "initial_setup self inputs src_admin src_user fs =
      (Returned True, msa @ msu @ [Setup_complete], fs3)"
    using na p1 p2 w1 w2 w3 by (simp add: initial_setup_def path_exists_def ca_def cu_def)
  have l: "lookup fs3 p =
      (if p = lock_status_file self then Some (File (Registry_json []))
       else if p = user_hash_file self then Some (File cu)
       else if p = admin_hash_file self then Some (File ca)
       else lookup fs p)" for p
    using paths by (simp add: fs3_def fs2_def fs1_def lookup_update)
  show "\<exists>fs'. initial_setup self inputs src_admin src_user fs =
               (Returned True, msa @ msu @ [Setup_complete], fs')
         \<and> load_credential (admin_hash_file self) fs' = Inr (hash_password src_admin admin_pass None)
         \<and> load_credential (user_hash_file self) fs' = Inr (hash_password src_user user_pass None)
         \<and> load_registry (lock_status_file self) fs' = Inr []
         \<and> (\<forall>p. p \<noteq> admin_hash_file self \<and> p \<noteq> user_hash_file self
                \<and> p \<noteq> lock_status_file self \<longrightarrow> lookup fs' p = lookup fs p)"
    using r paths
    by (intro exI [of _ fs3]) (simp add: l load_credential_lookup load_registry_lookup ca_def cu_def)
qed

theorem initial_setup_checks_admin_only_witness:
  "load_credential (user_hash_file tool) fs_no_admin = Inr user_cred
   \<and> load_registry (lock_status_file tool) fs_no_admin = Inr [([''tmp'', ''x''], entry_x)]
   \<and> (\<exists>fs'. initial_setup tool [''adminpw'', ''adminpw'', ''short'', ''short'', ''secret2'', ''secret2'']
              (\<lambda>i. 3) (\<lambda>i. 4) fs_no_admin =
               (Returned True, [Password_too_short, Setup_complete], fs')
         \<and> load_credential (user_hash_file tool) fs' = Inr (hash_password (\<lambda>i. 4) ''secret2'' None)
         \<and> load_registry (lock_status_file tool) fs' = Inr []
         \<and> is_dir fs' (hidden_path entry_x))"
proof -
  have pre: "tool = FolderLock_paths [''opt'', ''tool'']
      \<and> \<not> path_exists fs_no_admin (admin_hash_file tool)
      \<and> is_dir fs_no_admin (config_dir tool)
      \<and> lookup fs_no_admin (user_hash_file tool) \<noteq> Some Dir
      \<and> lookup fs_no_admin (lock_status_file tool) \<noteq> Some Dir
      \<and> prompt_new_password [''adminpw'', ''adminpw'', ''short'', ''short'', ''secret2'', ''secret2'']
            = ([], Some (''adminpw'', [''short'', ''short'', ''secret2'', ''secret2'']))
      \<and> prompt_new_password [''short'', ''short'', ''secret2'', ''secret2'']
            = ([Password_too_short], Some (''secret2'', []))"
    by (simp add: fs_eval fs_no_admin_def fs_locked_def)
  from initial_setup_checks_admin_only [THEN conjunct2, rule_format, OF pre]
  obtain fs' where r: "initial_setup tool
        [''adminpw'', ''adminpw'', ''short'', ''short'', ''secret2'', ''secret2'']
        (\<lambda>i. 3) (\<lambda>i. 4) fs_no_admin =
          (Returned True, [] @ [Password_too_short] @ [Setup_complete], fs')"
    and u: "load_credential (user_hash_file tool) fs' = Inr (hash_password (\<lambda>i. 4) ''secret2'' None)"
    and l: "load_registry (lock_status_file tool) fs' = Inr []"
    and o: "\<forall>p. p \<noteq> admin_hash_file tool \<and> p \<noteq> user_hash_file tool
                \<and> p \<noteq> lock_status_file tool \<longrightarrow> lookup fs' p = lookup fs_no_admin p"
    by blast
  have "lookup fs' (hidden_path entry_x) = lookup fs_no_admin (hidden_path entry_x)"
    using o by (simp add: entry_x_def tool_def FolderLock_paths_def)
  moreover have "is_dir fs_no_admin (hidden_path entry_x)"
    by (simp add: fs_eval fs_no_admin_def fs_locked_def entry_x_def)
  ultimately have d: "is_dir fs' (hidden_path entry_x)"
    by (simp add: is_dir_def)
  have b: "load_credential (user_hash_file tool) fs_no_admin = Inr user_cred"
    "load_registry (lock_status_file tool) fs_no_admin = Inr [([''tmp'', ''x''], entry_x)]"
    by (simp_all add: fs_eval fs_no_admin_def fs_locked_def)
  from r have r': "initial_setup tool
        [''adminpw'', ''adminpw'', ''short'', ''short'', ''secret2'', ''secret2'']
        (\<lambda>i. 3) (\<lambda>i. 4) fs_no_admin =
          (Returned True, [Password_too_short, Setup_complete], fs')"
    by simp
  from b r' u l d show ?thesis by blast
qed

section \<open>How the registry and the credentials are written\<close>

text \<open>
  Claim C3, as the code has it: every write of the registry and of a credential is
  \<^verbatim>\<open>open(target, 'w')\<close> followed by \<^verbatim>\<open>json.dump\<close>, in place. A write that succeeds
  passes through the state in which the target is cut to length zero, which neither
  \<^verbatim>\<open>json.load\<close> of a registry nor of a credential accepts, before the target holds the
  new object; a write that fails changes nothing; and no state on the way has a path that
  is neither the target nor a path of the state before, so no temporary file is created and
  nothing is renamed.
\<close>

theorem write_json_in_place:
  "(write_json p obj fs = Inr fs' \<longrightarrow>
      write_json_trace p obj fs = [fs, AList.update p (File Empty_file) fs, fs']
      \<and> lookup (AList.update p (File Empty_file) fs) p = Some (File Empty_file)
      \<and> load_registry p (AList.update p (File Empty_file) fs) = Inl JSONDecodeError
      \<and> load_credential p (AList.update p (File Empty_file) fs) = Inl JSONDecodeError
      \<and> lookup fs' p = Some (File obj))
   \<and> (\<forall>e. write_json p obj fs = Inl e \<longrightarrow> write_json_trace p obj fs = [fs])
   \<and> (\<forall>s \<in> set (write_json_trace p obj fs). fst ` set s \<subseteq> insert p (fst ` set fs))"
proof (intro conjI impI allI ballI)
  assume w: "write_json p obj fs = Inr fs'"
  then have o: "open_w p fs = Inr (AList.update p (File Empty_file) fs)" and n: "p \<noteq> []"
    by (auto simp: write_json_def dest: open_w_Inr split: sum.splits)
  from w o show "write_json_trace p obj fs = [fs, AList.update p (File Empty_file) fs, fs']"
    by (simp add: write_json_trace_def write_json_def)
  from n show l: "lookup (AList.update p (File Empty_file) fs) p = Some (File Empty_file)"
    by (simp add: lookup_update)
  from l show "load_registry p (AList.update p (File Empty_file) fs) = Inl JSONDecodeError"
    by (simp add: load_registry_def read_file_def)
  from l show "load_credential p (AList.update p (File Empty_file) fs) = Inl JSONDecodeError"
    by (simp add: load_credential_def read_file_def)
  from w show "lookup fs' p = Some (File obj)"
    by (simp add: write_json_lookup)
next
  fix e
  assume "write_json p obj fs = Inl e"
  then show "write_json_trace p obj fs = [fs]"
    by (simp add: write_json_trace_def write_json_def split: sum.splits)
next
  fix s
  assume "s \<in> set (write_json_trace p obj fs)"
  then consider "s = fs"
    | fs1 where "open_w p fs = Inr fs1" "s = fs1 \<or> s = json_dump obj p fs1"
    by (auto simp: write_json_trace_def split: sum.splits)
  then show "fst ` set s \<subseteq> insert p (fst ` set fs)"
  proof cases
    case 1
    then show ?thesis by blast
  next
    case 2
    from open_w_Inr [OF 2(1)] have "fst ` set fs1 = insert p (fst ` set fs)"
      by (simp add: dom_update)
    moreover from this have "fst ` set (json_dump obj p fs1) = insert p (fst ` set fs)"
      by (simp add: json_dump_def dom_update)
    ultimately show ?thesis using 2(2) by blast
  qed
qed

theorem write_json_in_place_witness:
  "write_json_trace (lock_status_file tool) (Registry_json []) fs_locked =
     [fs_locked,
      AList.update (lock_status_file tool) (File Empty_file) fs_locked,
      AList.update (lock_status_file tool) (File (Registry_json [])) fs_locked]
   \<and> fst ` set (AList.update (lock_status_file tool) (File Empty_file) fs_locked) \<subseteq>
        insert (lock_status_file tool) (fst ` set fs_locked)"
proof -
  have w: "write_json (lock_status_file tool) (Registry_json []) fs_locked =
      Inr (AList.update (lock_status_file tool) (File (Registry_json [])) fs_locked)"
    by (rule write_json_file [where c = "Registry_json [([''tmp'', ''x''], entry_x)]"])
       (simp add: fs_eval fs_locked_def)
  note t = write_json_in_place [where p = "lock_status_file tool" and obj = "Registry_json []"
      and fs = fs_locked]
  from t [THEN conjunct1, rule_format, OF w]
  have 1: "write_json_trace (lock_status_file tool) (Registry_json []) fs_locked =
     [fs_locked,
      AList.update (lock_status_file tool) (File Empty_file) fs_locked,
      AList.update (lock_status_file tool) (File (Registry_json [])) fs_locked]"
    by blast
  from t [THEN conjunct2, THEN conjunct2, rule_format,
      of "AList.update (lock_status_file tool) (File Empty_file) fs_locked"] 1
  have "fst ` set (AList.update (lock_status_file tool) (File Empty_file) fs_locked) \<subseteq>
        insert (lock_status_file tool) (fst ` set fs_locked)"
    by simp
  with 1 show ?thesis by blast
qed

text \<open>
  Claim C3 as stated fails: while the registry that records the lock of \<open>/tmp/x\<close> is
  being replaced, the second of the three states of the write has a registry file that
  cannot be parsed.
\<close>

theorem write_json_truncated_registry_visible:
  "load_registry (lock_status_file tool) fs_locked = Inr [([''tmp'', ''x''], entry_x)]
   \<and> load_registry (lock_status_file tool)
        (write_json_trace (lock_status_file tool) (Registry_json []) fs_locked ! 1)
       = Inl JSONDecodeError
   \<and> length (write_json_trace (lock_status_file tool) (Registry_json []) fs_locked) = 3"
  by (simp add: write_json_trace_def fs_eval fs_locked_def)

section \<open>Unlocking commits whatever the moves do\<close>

text \<open>
  Claim C10, as the code has it: let \<^verbatim>\<open>unlock_folder\<close> have passed the password, found
  the entry and found its vault (a path where the tool keeps its vaults). The folder is
  then created if it is missing and the vault is listed, and neither step is inside a
  \<^verbatim>\<open>try\<close>: when the folder cannot be created, or the vault cannot be listed, the call
  ends with that exception, nothing has been moved and the registry keeps the entry.
  Otherwise the call returns true and the registry written no longer has the entry,
  whatever number of items the loop could move back and whether or not the vault directory
  could be removed; apart from the registry file the file system is what the loop and the
  attempt to remove the vault left. The statement on a folder that cannot be created is
  about a path without a component \<open>..\<close>, which the model does not resolve.
\<close>

theorem unlock_folder_commits:
  assumes wf: "wf_fs fs" and self: "self = FolderLock_paths d"
    and cred: "load_credential (user_hash_file self) fs = Inr c" and pw: "verify_password pw c"
    and reg: "load_registry (lock_status_file self) fs = Inr reg"
    and locked: "map_of reg folder = Some info"
    and vault: "hidden_path info = hidden_dir self @ [h]"
    and vault_exists: "path_exists fs (hidden_path info)"
  shows "(\<forall>e. mkdir folder True fs = Inl e \<and> ''..'' \<notin> set folder \<longrightarrow>
            unlock_folder self folder pw fs = (Raised e, [], fs))
     \<and> (\<forall>fs_m e. mkdir folder True fs = Inr fs_m \<and> iterdir (hidden_path info) fs_m = Inl e \<longrightarrow>
            unlock_folder self folder pw fs = (Raised e, [], fs_m)
            \<and> load_registry (lock_status_file self) fs_m = Inr reg
            \<and> (\<forall>q. q \<noteq> folder \<longrightarrow> lookup fs_m q = lookup fs q))
     \<and> (\<forall>fs_m items.
            mkdir folder True fs = Inr fs_m \<and> iterdir (hidden_path info) fs_m = Inr items \<longrightarrow>
            (\<exists>n failed fs_r fs'.
               move_items (hidden_path info) items folder fs_m = (n, failed, fs_r)
               \<and> unlock_folder self folder pw fs =
                   (Returned True,
                    map Warning_could_not_restore failed @ [Unlocked_successfully n], fs')
               \<and> load_registry (lock_status_file self) fs' = Inr (AList.delete folder reg)
               \<and> folder \<notin> fst ` set (AList.delete folder reg)
               \<and> (\<forall>q. q \<noteq> lock_status_file self \<longrightarrow>
                     lookup fs' q =
                     lookup (case rmdir (hidden_path info) fs_r of
                               Inl e \<Rightarrow> fs_r | Inr fs_d \<Rightarrow> fs_d) q)))"
proof -
  have a: "authenticate_user self pw fs = (Returned True, [])"
    using cred pw by (rule authenticate_user_True)
  have 1: "\<forall>e. mkdir folder True fs = Inl e \<and> ''..'' \<notin> set folder \<longrightarrow>
      unlock_folder self folder pw fs = (Raised e, [], fs)"
    using a reg locked vault_exists by (simp add: unlock_folder_def)
  have 2: "\<forall>fs_m e. mkdir folder True fs = Inr fs_m \<and> iterdir (hidden_path info) fs_m = Inl e \<longrightarrow>
      unlock_folder self folder pw fs = (Raised e, [], fs_m)
      \<and> load_registry (lock_status_file self) fs_m = Inr reg
      \<and> (\<forall>q. q \<noteq> folder \<longrightarrow> lookup fs_m q = lookup fs q)"
  proof (intro allI impI)
    fix fs_m e
    assume m: "mkdir folder True fs = Inr fs_m \<and> iterdir (hidden_path info) fs_m = Inl e"
    then have r: "unlock_folder self folder pw fs = (Raised e, [], fs_m)"
      using a reg locked vault_exists by (simp add: unlock_folder_def)
    from m have mk: "mkdir folder True fs = Inr fs_m" by simp
    from reg have l0: "lookup fs (lock_status_file self) = Some (File (Registry_json reg))"
      by (simp add: load_registry_lookup)
    then have "path_exists fs (lock_status_file self)" by (simp add: path_exists_def)
    from mkdir_preserves(3) [OF wf mk this] l0
    have l: "load_registry (lock_status_file self) fs_m = Inr reg"
      by (simp add: load_registry_lookup)
    have o: "\<forall>q. q \<noteq> folder \<longrightarrow> lookup fs_m q = lookup fs q"
      using mk by (auto simp: mkdir_def lookup_def map_add_def split: if_splits option.splits)
    from r l o show "unlock_folder self folder pw fs = (Raised e, [], fs_m)
      \<and> load_registry (lock_status_file self) fs_m = Inr reg
      \<and> (\<forall>q. q \<noteq> folder \<longrightarrow> lookup fs_m q = lookup fs q)"
      by blast
  qed
  have 3: "\<forall>fs_m items.
      mkdir folder True fs = Inr fs_m \<and> iterdir (hidden_path info) fs_m = Inr items \<longrightarrow>
      (\<exists>n failed fs_r fs'.
         move_items (hidden_path info) items folder fs_m = (n, failed, fs_r)
         \<and> unlock_folder self folder pw fs =
             (Returned True,
              map Warning_could_not_restore failed @ [Unlocked_successfully n], fs')
         \<and> load_registry (lock_status_file self) fs' = Inr (AList.delete folder reg)
         \<and> folder \<notin> fst ` set (AList.delete folder reg)
         \<and> (\<forall>q. q \<noteq> lock_status_file self \<longrightarrow>
               lookup fs' q =
               lookup (case rmdir (hidden_path info) fs_r of
                         Inl e \<Rightarrow> fs_r | Inr fs_d \<Rightarrow> fs_d) q))"
  proof (intro allI impI)
    fix fs_m items
    assume "mkdir folder True fs = Inr fs_m \<and> iterdir (hidden_path info) fs_m = Inr items"
    then have mk: "mkdir folder True fs = Inr fs_m"
      and it: "iterdir (hidden_path info) fs_m = Inr items"
      by simp_all
    show "\<exists>n failed fs_r fs'.
        move_items (hidden_path info) items folder fs_m = (n, failed, fs_r)
        \<and> unlock_folder self folder pw fs =
            (Returned True, map Warning_could_not_restore failed @ [Unlocked_successfully n], fs')
        \<and> load_registry (lock_status_file self) fs' = Inr (AList.delete folder reg)
        \<and> folder \<notin> fst ` set (AList.delete folder reg)
        \<and> (\<forall>q. q \<noteq> lock_status_file self \<longrightarrow>
              lookup fs' q =
              lookup (case rmdir (hidden_path info) fs_r of Inl e \<Rightarrow> fs_r | Inr fs_d \<Rightarrow> fs_d) q)"
      by (rule unlock_folder_after_listing
          [OF wf self cred pw reg locked vault vault_exists mk it])
  qed
  from 1 2 3 show ?thesis by (intro conjI)
qed

theorem unlock_folder_commits_witness:
  "unlock_folder tool [''tmp'', ''x''] ''secret1'' fs_parent_gone =
     (Raised FileNotFoundError, [], fs_parent_gone)
   \<and> load_registry (lock_status_file tool) fs_parent_gone = Inr [([''tmp'', ''x''], entry_x)]
   \<and> move_items (hidden_path entry_x) [''a.txt'', ''b.txt''] [''tmp'', ''x''] fs_refilled =
     (0, [''a.txt'', ''b.txt''], fs_refilled)
   \<and> unlock_folder tool [''tmp'', ''x''] ''secret1'' fs_refilled =
       (Returned True,
        [Warning_could_not_restore ''a.txt'', Warning_could_not_restore ''b.txt'',
         Unlocked_successfully 0], fs_refilled_unlocked)
   \<and> load_registry (lock_status_file tool) fs_refilled_unlocked = Inr []
   \<and> children fs_refilled_unlocked (hidden_path entry_x) = [''a.txt'', ''b.txt'']"
proof -
  have mv: "move_items (hidden_path entry_x) [''a.txt'', ''b.txt''] [''tmp'', ''x''] fs_refilled =
     (0, [''a.txt'', ''b.txt''], fs_refilled)"
    by (simp add: fs_eval fs_refilled_def fs_locked_def entry_x_def)
  have mk: "mkdir [''tmp'', ''x''] True fs_refilled = Inr fs_refilled
      \<and> iterdir (hidden_path entry_x) fs_refilled = Inr [''a.txt'', ''b.txt'']"
    by (simp add: fs_eval fs_refilled_def fs_locked_def entry_x_def)
  have t: "tool = FolderLock_paths [''opt'', ''tool'']"
    "load_credential (user_hash_file tool) fs_refilled = Inr user_cred"
    "verify_password ''secret1'' user_cred"
    "load_registry (lock_status_file tool) fs_refilled = Inr [([''tmp'', ''x''], entry_x)]"
    "map_of [([''tmp'', ''x''], entry_x)] [''tmp'', ''x''] = Some entry_x"
    "hidden_path entry_x = hidden_dir tool @ [''x_20260101_120000'']"
    "path_exists fs_refilled (hidden_path entry_x)"
    by (simp_all add: user_cred_ok fs_eval fs_refilled_def fs_locked_def entry_x_def)
  from unlock_folder_commits [OF wf_fs_refilled t, THEN conjunct2, THEN conjunct2, rule_format, OF mk]
  obtain fs' where
    u: "unlock_folder tool [''tmp'', ''x''] ''secret1'' fs_refilled =
       (Returned True,
        [Warning_could_not_restore ''a.txt'', Warning_could_not_restore ''b.txt'',
         Unlocked_successfully 0], fs')"
    and l: "load_registry (lock_status_file tool) fs' =
        Inr (AList.delete [''tmp'', ''x''] [([''tmp'', ''x''], entry_x)])"
    unfolding mv by auto
  have e: "unlock_folder tool [''tmp'', ''x''] ''secret1'' fs_refilled =
       (Returned True,
        [Warning_could_not_restore ''a.txt'', Warning_could_not_restore ''b.txt'',
         Unlocked_successfully 0], fs_refilled_unlocked)"
    by (simp add: unlock_folder_def fs_eval fs_refilled_unlocked_def fs_refilled_def
        fs_locked_def entry_x_def user_cred_ok)
  with u have "fs' = fs_refilled_unlocked" by simp
  with l have l': "load_registry (lock_status_file tool) fs_refilled_unlocked = Inr []" by simp
  have c: "children fs_refilled_unlocked (hidden_path entry_x) = [''a.txt'', ''b.txt'']"
    by (simp add: fs_eval fs_refilled_unlocked_def fs_refilled_def fs_locked_def entry_x_def)
  have g: "tool = FolderLock_paths [''opt'', ''tool'']"
    "load_credential (user_hash_file tool) fs_parent_gone = Inr user_cred"
    "verify_password ''secret1'' user_cred"
    "load_registry (lock_status_file tool) fs_parent_gone = Inr [([''tmp'', ''x''], entry_x)]"
    "map_of [([''tmp'', ''x''], entry_x)] [''tmp'', ''x''] = Some entry_x"
    "hidden_path entry_x = hidden_dir tool @ [''x_20260101_120000'']"
    "path_exists fs_parent_gone (hidden_path entry_x)"
    by (simp_all add: user_cred_ok fs_eval fs_parent_gone_def fs_locked_def entry_x_def)
  have mg: "mkdir [''tmp'', ''x''] True fs_parent_gone = Inl FileNotFoundError
      \<and> ''..'' \<notin> set [''tmp'', ''x'']"
    by (simp add: fs_eval fs_parent_gone_def fs_locked_def)
  from unlock_folder_commits [OF wf_fs_parent_gone g, THEN conjunct1, rule_format, OF mg]
  have r: "unlock_folder tool [''tmp'', ''x''] ''secret1'' fs_parent_gone =
     (Raised FileNotFoundError, [], fs_parent_gone)" .
  from r g(4) mv e l' c show ?thesis by blast
qed

text \<open>
  Claim C10 as stated fails: the entry is not removed unconditionally once the three checks
  have passed. With \<open>/tmp\<close> deleted, the folder \<open>/tmp/x\<close> cannot be created, and with a
  regular file in the place of the vault, the vault cannot be listed: in both states
  \<^verbatim>\<open>unlock_folder\<close> passes the password, finds the entry and finds the vault path, and then
  ends with the exception; the file system is unchanged and the registry keeps the entry.
\<close>

theorem unlock_folder_raises_before_commit:
  "unlock_folder tool [''tmp'', ''x''] ''secret1'' fs_parent_gone =
     (Raised FileNotFoundError, [], fs_parent_gone)
   \<and> load_registry (lock_status_file tool) fs_parent_gone = Inr [([''tmp'', ''x''], entry_x)]
   \<and> path_exists fs_parent_gone (hidden_path entry_x)
   \<and> unlock_folder tool [''tmp'', ''x''] ''secret1'' fs_vault_file =
     (Raised NotADirectoryError, [], fs_vault_file)
   \<and> load_registry (lock_status_file tool) fs_vault_file = Inr [([''tmp'', ''x''], entry_x)]
   \<and> path_exists fs_vault_file (hidden_path entry_x)"
proof -
  have "unlock_folder tool [''tmp'', ''x''] ''secret1'' fs_parent_gone =
     (Raised FileNotFoundError, [], fs_parent_gone)"
    by (simp add: unlock_folder_def fs_eval fs_parent_gone_def fs_locked_def entry_x_def
        user_cred_ok)
  moreover have "unlock_folder tool [''tmp'', ''x''] ''secret1'' fs_vault_file =
     (Raised NotADirectoryError, [], fs_vault_file)"
    by (simp add: unlock_folder_def fs_eval fs_vault_file_def fs_vault_missing_def fs_locked_def
        entry_x_def user_cred_ok)
  moreover have "load_registry (lock_status_file tool) fs_parent_gone =
      Inr [([''tmp'', ''x''], entry_x)]"
    "path_exists fs_parent_gone (hidden_path entry_x)"
    by (simp_all add: fs_eval fs_parent_gone_def fs_locked_def entry_x_def)
  moreover have "load_registry (lock_status_file tool) fs_vault_file =
      Inr [([''tmp'', ''x''], entry_x)]"
    "path_exists fs_vault_file (hidden_path entry_x)"
    by (simp_all add: fs_eval fs_vault_file_def fs_vault_missing_def fs_locked_def entry_x_def)
  ultimately show ?thesis by blast
qed

section \<open>Unlocking every folder\<close>




section \<open>Locking and unlocking a folder: the round trip\<close>

text \<open>
  Claim C1, as the code has it: let \<open>folder\<close> be a directory other than the tool's own
  configuration directory and not in the registry, and let \<open>pw\<close> and \<open>pw'\<close> be passwords
  that verify against the user's credential. When the vault directory of
  \<^verbatim>\<open>lock_folder\<close> can be created, the call returns true and records the folder, and
  \<^verbatim>\<open>unlock_folder\<close> on the state it leaves returns true and leaves the file system that
  was there before the lock: the folder has the entries it had, by name and with their
  contents, every other path is as it was, and the registry is the one from before, with no
  entry for the folder. When the vault directory cannot be created, because a vault of that
  name and second exists already or the tool's vault directory is gone,
  \<^verbatim>\<open>lock_folder\<close> ends with the exception and nothing is changed, and
  \<^verbatim>\<open>unlock_folder\<close> reports that the folder is not locked.
\<close>

theorem lock_unlock_round_trip:
  assumes wf: "wf_fs fs" and self: "self = FolderLock_paths d"
    and dF: "is_dir fs folder" and ncd: "folder \<noteq> config_dir self"
    and cred: "load_credential (user_hash_file self) fs = Inr c"
    and pw: "verify_password pw c" and pw': "verify_password pw' c"
    and reg: "load_registry (lock_status_file self) fs = Inr reg"
    and unlocked: "folder \<notin> fst ` set reg"
  shows "(\<forall>e. mkdir (hidden_dir self @ [pathname folder @ ''_'' @ ts]) False fs = Inl e \<longrightarrow>
            lock_folder self folder pw ts now fs = (Raised e, [], fs)
            \<and> unlock_folder self folder pw' fs = (Returned False, [Error_not_locked], fs))
     \<and> (\<forall>fs_v. mkdir (hidden_dir self @ [pathname folder @ ''_'' @ ts]) False fs = Inr fs_v \<longrightarrow>
          (\<exists>ms n fs_l m fs_u.
             lock_folder self folder pw ts now fs =
               (Returned True, ms @ [Locked_successfully n], fs_l)
             \<and> load_registry (lock_status_file self) fs_l =
                 Inr (AList.update folder
                        \<lparr>hidden_path = hidden_dir self @ [pathname folder @ ''_'' @ ts],
                         locked_at = now, items_count = n\<rparr> reg)
             \<and> unlock_folder self folder pw' fs_l =
                 (Returned True, [Unlocked_successfully m], fs_u)
             \<and> fs_u = fs
             \<and> children fs_u folder = children fs folder
             \<and> load_registry (lock_status_file self) fs_u = Inr reg
             \<and> folder \<notin> fst ` set reg))"
proof (intro conjI allI impI)
  fix e
  assume "mkdir (hidden_dir self @ [pathname folder @ ''_'' @ ts]) False fs = Inl e"
  moreover have "authenticate_user self pw fs = (Returned True, [])"
    using cred pw by (rule authenticate_user_True)
  ultimately show "lock_folder self folder pw ts now fs = (Raised e, [], fs)"
    using dF is_dir_exists [OF dF] reg unlocked by (simp add: lock_folder_def Let_def)
next
  fix e
  have "authenticate_user self pw' fs = (Returned True, [])"
    using cred pw' by (rule authenticate_user_True)
  moreover from unlocked have "map_of reg folder = None"
    by (simp add: map_of_eq_None_iff)
  ultimately show "unlock_folder self folder pw' fs = (Returned False, [Error_not_locked], fs)"
    using reg by (simp add: unlock_folder_def)
next
  fix fs_v
  assume mkv: "mkdir (hidden_dir self @ [pathname folder @ ''_'' @ ts]) False fs = Inr fs_v"
  then have fresh: "\<not> path_exists fs (hidden_dir self @ [pathname folder @ ''_'' @ ts])"
    and hdir: "is_dir fs (hidden_dir self)"
    by (auto simp: mkdir_def split: if_splits)
  define nm where "nm = pathname folder @ ''_'' @ ts"
  have nm': "pathname folder @ CHR ''_'' # ts = nm" by (simp add: nm_def)
  let ?cd = "config_dir self" and ?lsf = "lock_status_file self" and ?uhf = "user_hash_file self"
  let ?H = "hidden_dir self @ [nm]"
  let ?fs1 = "fs @ [(?H, Dir)]"
  have paths: "?lsf = ?cd @ [''lock_status.json'']" "?uhf = ?cd @ [''user_hash.json'']"
    "?H = ?cd @ [''.locked_data'', nm]" "hidden_dir self = ?cd @ [''.locked_data'']"
    using self by (simp_all add: FolderLock_paths_def)
  have cdH: "prefix ?cd ?H" by (simp add: paths(4))
  from fresh have fresh': "\<not> path_exists fs ?H" by (simp add: nm_def)
  have lens: "length ?lsf < length ?H" "length ?uhf < length ?H"
    by (simp_all add: paths)
  then have npH: "\<not> prefix ?H ?lsf" "\<not> prefix ?H ?uhf" "?lsf \<noteq> ?H" "?uhf \<noteq> ?H"
    by (auto dest: prefix_length_le)
  have ul: "?uhf \<noteq> ?lsf" by (simp add: paths)
  \<comment> \<open>the vault is created\<close>
  have mk: "mkdir ?H False fs = Inr ?fs1"
    using fresh' hdir by (intro mkdir_new) (simp_all add: butlast_append)
  have s1: "sealing folder ?H ?fs1" by (rule sealing_fresh [OF wf dF fresh'])
  from reg have l0: "lookup fs ?lsf = Some (File (Registry_json reg))"
    by (simp add: load_registry_lookup)
  from cred have u0: "lookup fs ?uhf = Some (File (Credential_json c))"
    by (simp add: load_credential_lookup)
  from lookup_key [OF l0] have lk0: "?lsf \<noteq> []" "?lsf \<in> fst ` set fs" by simp_all
  from l0 u0 fresh' have l1: "lookup ?fs1 ?lsf = Some (File (Registry_json reg))"
    and u1: "lookup ?fs1 ?uhf = Some (File (Credential_json c))"
    by (simp_all add: lookup_append_new npH)
  from lookup_key [OF l1] lookup_key [OF u1]
  have lk1: "?lsf \<in> fst ` set ?fs1" and uk1: "?uhf \<in> fst ` set ?fs1" by blast+
  have "is_dir fs (butlast ?lsf)"
    using wf_parent [OF wf _ lk0(1)] l0 by (simp add: path_exists_def)
  then have cd0: "is_dir fs ?cd" by (simp add: paths butlast_append)
  with fresh' have cd1: "lookup ?fs1 ?cd = Some Dir"
    by (auto simp: is_dir_def lookup_append_new)
  have cdk: "?cd = [] \<or> ?cd \<in> fst ` set ?fs1"
    using cd1 by (auto simp: lookup_def dest!: map_of_SomeD intro: rev_image_eqI split: if_splits)
  \<comment> \<open>the items are moved\<close>
  define cs where "cs = children ?fs1 folder"
  from s1 have dF1: "is_dir ?fs1 folder" and dk1: "distinct (map fst ?fs1)"
    by (simp_all add: sealing_def)
  then have it: "iterdir folder ?fs1 = Inr cs"
    by (simp add: iterdir_def cs_def is_dir_exists)
  have dcs: "distinct cs" unfolding cs_def by (rule children_distinct [OF dk1])
  have kcs: "\<forall>c \<in> set cs. folder @ [c] \<in> fst ` set ?fs1"
    unfolding cs_def by (auto simp: children_set path_exists_iff)
  define M where "M = {c \<in> set cs. \<not> prefix (folder @ [c]) ?H}"
  have MH: "\<forall>c \<in> M. \<not> prefix (folder @ [c]) ?H" and kM: "\<forall>c \<in> M. folder @ [c] \<in> fst ` set ?fs1"
    using kcs by (auto simp: M_def)
  from move_items_forward [OF s1, of "{}" cs] dcs kcs
  obtain n failed where mv: "move_items folder cs ?H ?fs1 = (n, failed, moved_fs folder ?H M ?fs1)"
    by (auto simp: moved_empty M_def)
  let ?S = "moved_fs folder ?H M ?fs1"
  let ?entry = "\<lparr>hidden_path = ?H, locked_at = now, items_count = n\<rparr>"
  let ?r = "AList.update folder ?entry reg"
  let ?fsl = "AList.update ?lsf (File (Registry_json ?r)) ?S"
  \<comment> \<open>the registry is written\<close>
  have cdfix: "\<forall>c \<in> M. \<not> prefix (folder @ [c]) ?cd"
    using MH cdH by (meson prefix_order.trans)
  from lookup_moved_fixed [OF s1 cdfix cdk] cd1 have cdS: "is_dir ?S ?cd"
    by (simp add: is_dir_def)
  have lS: "lookup ?S ?lsf \<noteq> Some Dir"
  proof (cases "\<exists>c \<in> M. prefix (folder @ [c]) ?lsf")
    case True
    from lookup_moved_away [OF s1 True npH(1)] show ?thesis by simp
  next
    case False
    then have "\<forall>c \<in> M. \<not> prefix (folder @ [c]) ?lsf" by blast
    from lookup_moved_fixed [OF s1 this] lk1 l1 show ?thesis by simp
  qed
  have wS: "write_json ?lsf (Registry_json ?r) ?S = Inr ?fsl"
    using lS cdS by (intro write_json_ok) (simp_all add: paths butlast_append)
  have a: "authenticate_user self pw fs = (Returned True, [])"
    using cred pw by (rule authenticate_user_True)
  have lock: "lock_folder self folder pw ts now fs =
      (Returned True, map Warning_could_not_move failed @ [Locked_successfully n], ?fsl)"
    using dF is_dir_exists [OF dF] a reg unlocked mk it mv wS
    by (simp add: lock_folder_def nm' Let_def)
  \<comment> \<open>the folder is not the configuration directory, so the credential file has stayed\<close>
  note fcd = ncd
  have ufix: "\<forall>c \<in> M. \<not> prefix (folder @ [c]) ?uhf"
  proof (intro ballI notI)
    fix c assume c: "c \<in> M" and p: "prefix (folder @ [c]) ?uhf"
    from p have "prefix (folder @ [c]) ?cd \<or> folder @ [c] = ?cd @ [''user_hash.json'']"
      by (auto simp: paths(2) prefix_snoc)
    with cdfix c fcd show False by auto
  qed
  from lookup_moved_fixed [OF s1 ufix] uk1 u1
  have "lookup ?S ?uhf = Some (File (Credential_json c))" by simp
  with ul lk0(1) have "lookup ?fsl ?uhf = Some (File (Credential_json c))"
    by (simp add: lookup_update)
  then have "load_credential ?uhf ?fsl = Inr c" by (simp add: load_credential_lookup)
  then have a': "authenticate_user self pw' ?fsl = (Returned True, [])"
    using pw' by (rule authenticate_user_True)
  have lfix: "\<forall>c \<in> M. \<not> prefix (folder @ [c]) ?lsf"
  proof (intro ballI notI)
    fix c assume c: "c \<in> M" and p: "prefix (folder @ [c]) ?lsf"
    from p have "prefix (folder @ [c]) ?cd \<or> folder @ [c] = ?cd @ [''lock_status.json'']"
      by (auto simp: paths(1) prefix_snoc)
    with cdfix c fcd show False by auto
  qed
  then have mfix: "moved folder ?H M ?lsf = ?lsf" by (rule moved_fixed)
  have minj: "\<forall>q \<in> fst ` set ?fs1. moved folder ?H M q = ?lsf \<longrightarrow> q = ?lsf"
    using moved_inj [OF s1 _ lk1, of _ M] mfix by auto
  let ?base = "AList.update ?lsf (File (Registry_json ?r)) ?fs1"
  have fsl: "?fsl = moved_fs folder ?H M ?base"
    by (rule moved_fs_update [OF mfix minj])
  have s2: "sealing folder ?H ?base" by (rule sealing_update [OF s1 l1])
  have keys2: "fst ` set ?base = fst ` set ?fs1"
    using lk1 by (auto simp: dom_update)
  with kM have kM2: "\<forall>c \<in> M. folder @ [c] \<in> fst ` set ?base" by simp
  \<comment> \<open>unlocking\<close>
  have b: "load_registry ?lsf ?fsl = Inr ?r"
    using lk0(1) by (simp add: load_registry_lookup lookup_update)
  have cm: "map_of ?r folder = Some ?entry" by (simp add: update_conv')
  have dH: "path_exists ?fsl ?H"
    unfolding fsl by (rule is_dir_exists [OF moved_fs_vault [OF s2 MH]])
  have dFl: "is_dir ?fsl folder" unfolding fsl by (rule moved_fs_folder [OF s2])
  then have mkF: "mkdir folder True ?fsl = Inr ?fsl"
    by (simp add: mkdir_def is_dir_exists)
  define its where "its = children ?fsl ?H"
  have "is_dir ?fsl ?H" unfolding fsl by (rule moved_fs_vault [OF s2 MH])
  with dH have itH: "iterdir ?H ?fsl = Inr its" by (simp add: iterdir_def its_def)
  from moved_fs_vault_children [OF s2 kM2] have dits: "distinct its" and sits: "set its = M"
    unfolding its_def fsl by blast+
  from move_items_backward [OF s2 MH dits _ kM2] sits
  have "move_items ?H its folder (moved_fs folder ?H M ?base) =
      (length its, [], moved_fs folder ?H (M - set its) ?base)"
    by simp
  with sits have restored: "move_items ?H its folder ?fsl = (length its, [], ?base)"
    by (simp add: fsl moved_empty)
  let ?fs2 = "AList.update ?lsf (File (Registry_json ?r)) fs"
  have base: "?base = ?fs2 @ [(?H, Dir)]"
    by (rule update_append_existing [OF lk0(2)])
  from fresh' have Hk: "?H \<notin> fst ` set fs" by (simp add: path_exists_iff)
  with npH(3) have "?H \<notin> fst ` set ?fs2" by (simp add: dom_update)
  then have del: "AList.delete ?H ?base = ?fs2"
    by (simp add: base AList.delete_eq filter_id_conv) (auto simp: image_iff)
  from s2 have "path_exists ?base ?H" "is_dir ?base ?H" "?H \<noteq> []"
    by (auto simp: sealing_def is_dir_exists)
  with sealing_vault_empty [OF s2] del have rm: "rmdir ?H ?base = Inr ?fs2"
    by (simp add: rmdir_def)
  have dr: "AList.delete folder ?r = reg"
    using unlocked by (simp add: delete_update_same)
  have "lookup ?fs2 ?lsf = Some (File (Registry_json ?r))"
    using lk0(1) by (simp add: lookup_update)
  then have "write_json ?lsf (Registry_json reg) ?fs2 =
      Inr (AList.update ?lsf (File (Registry_json reg)) ?fs2)"
    by (rule write_json_file)
  moreover have "AList.update ?lsf (File (Registry_json reg)) ?fs2 = fs"
    using l0 lk0(1) by (simp add: update_triv lookup_def)
  ultimately have wf2: "write_json ?lsf (Registry_json reg) ?fs2 = Inr fs" by simp
  have unlock: "unlock_folder self folder pw' ?fsl =
      (Returned True, [Unlocked_successfully (length its)], fs)"
    using a' b cm dH mkF itH restored rm dr wf2
    by (simp add: unlock_folder_def Let_def)
  from b have b': "load_registry ?lsf ?fsl =
      Inr (AList.update folder
             \<lparr>hidden_path = hidden_dir self @ [pathname folder @ ''_'' @ ts],
              locked_at = now, items_count = n\<rparr> reg)"
    by (simp add: nm_def)
  from lock b' unlock reg unlocked
  show "\<exists>ms n fs_l m fs_u.
      lock_folder self folder pw ts now fs = (Returned True, ms @ [Locked_successfully n], fs_l)
      \<and> load_registry (lock_status_file self) fs_l =
          Inr (AList.update folder
                 \<lparr>hidden_path = hidden_dir self @ [pathname folder @ ''_'' @ ts],
                  locked_at = now, items_count = n\<rparr> reg)
      \<and> unlock_folder self folder pw' fs_l = (Returned True, [Unlocked_successfully m], fs_u)
      \<and> fs_u = fs
      \<and> children fs_u folder = children fs folder
      \<and> load_registry (lock_status_file self) fs_u = Inr reg
      \<and> folder \<notin> fst ` set reg"
    by blast
qed

theorem lock_unlock_round_trip_witness:
  "lock_folder tool [''tmp'', ''x''] ''secret1'' ''20260101_120000'' ''2026-01-01T12:00:00'' fs_setup
     = (Returned True, [Locked_successfully 2], fs_locked)
   \<and> children fs_locked [''tmp'', ''x''] = []
   \<and> (\<exists>m. unlock_folder tool [''tmp'', ''x''] ''secret1'' fs_locked =
          (Returned True, [Unlocked_successfully m], fs_setup))
   \<and> children fs_setup [''tmp'', ''x''] = [''a.txt'', ''b.txt'']
   \<and> load_registry (lock_status_file tool) fs_setup = Inr []
   \<and> lock_folder tool [''tmp'', ''x''] ''secret1'' ''20260101_120000'' ''2026-01-01T12:00:00''
       fs_refilled_unlocked = (Raised FileExistsError, [], fs_refilled_unlocked)"
proof -
  let ?H = "hidden_dir tool @ [pathname [''tmp'', ''x''] @ ''_'' @ ''20260101_120000'']"
  have lk: "lock_folder tool [''tmp'', ''x''] ''secret1'' ''20260101_120000''
      ''2026-01-01T12:00:00'' fs_setup = (Returned True, [Locked_successfully 2], fs_locked)"
    by (simp add: lock_folder_def fs_eval fs_setup_def fs_locked_def entry_x_def user_cred_ok)
  have mk: "mkdir ?H False fs_setup = Inr (fs_setup @ [(?H, Dir)])"
    by (simp add: fs_eval fs_setup_def)
  have "(\<forall>e. mkdir ?H False fs_setup = Inl e \<longrightarrow>
            lock_folder tool [''tmp'', ''x''] ''secret1'' ''20260101_120000''
              ''2026-01-01T12:00:00'' fs_setup = (Raised e, [], fs_setup)
            \<and> unlock_folder tool [''tmp'', ''x''] ''secret1'' fs_setup =
                (Returned False, [Error_not_locked], fs_setup))
     \<and> (\<forall>fs_v. mkdir ?H False fs_setup = Inr fs_v \<longrightarrow>
          (\<exists>ms n fs_l m fs_u.
             lock_folder tool [''tmp'', ''x''] ''secret1'' ''20260101_120000''
               ''2026-01-01T12:00:00'' fs_setup =
               (Returned True, ms @ [Locked_successfully n], fs_l)
             \<and> load_registry (lock_status_file tool) fs_l =
                 Inr (AList.update [''tmp'', ''x'']
                        \<lparr>hidden_path = ?H,
                         locked_at = ''2026-01-01T12:00:00'', items_count = n\<rparr> [])
             \<and> unlock_folder tool [''tmp'', ''x''] ''secret1'' fs_l =
                 (Returned True, [Unlocked_successfully m], fs_u)
             \<and> fs_u = fs_setup
             \<and> children fs_u [''tmp'', ''x''] = children fs_setup [''tmp'', ''x'']
             \<and> load_registry (lock_status_file tool) fs_u = Inr []
             \<and> [''tmp'', ''x''] \<notin> fst ` set ([] :: registry)))"
  proof (rule lock_unlock_round_trip [where c = user_cred and d = "[''opt'', ''tool'']"])
    show "wf_fs fs_setup" by (rule wf_fs_setup)
    show "tool = FolderLock_paths [''opt'', ''tool'']" by (simp add: tool_def)
    show "is_dir fs_setup [''tmp'', ''x'']" by (simp add: fs_eval fs_setup_def)
    show "[''tmp'', ''x''] \<noteq> config_dir tool" by (simp add: tool_def FolderLock_paths_def)
    show "load_credential (user_hash_file tool) fs_setup = Inr user_cred"
      by (simp add: fs_eval fs_setup_def)
    show "verify_password ''secret1'' user_cred" by (rule user_cred_ok)
    show "verify_password ''secret1'' user_cred" by (rule user_cred_ok)
    show "load_registry (lock_status_file tool) fs_setup = Inr []"
      by (simp add: fs_eval fs_setup_def)
    show "[''tmp'', ''x''] \<notin> fst ` set ([] :: registry)" by simp
  qed
  from this [THEN conjunct2, rule_format, OF mk] lk
  have u: "\<exists>m. unlock_folder tool [''tmp'', ''x''] ''secret1'' fs_locked =
      (Returned True, [Unlocked_successfully m], fs_setup)"
    by auto
  have mk': "mkdir ?H False fs_refilled_unlocked = Inl FileExistsError"
    by (simp add: fs_eval fs_refilled_unlocked_def fs_refilled_def fs_locked_def)
  have "(\<forall>e. mkdir ?H False fs_refilled_unlocked = Inl e \<longrightarrow>
            lock_folder tool [''tmp'', ''x''] ''secret1'' ''20260101_120000''
              ''2026-01-01T12:00:00'' fs_refilled_unlocked = (Raised e, [], fs_refilled_unlocked)
            \<and> unlock_folder tool [''tmp'', ''x''] ''secret1'' fs_refilled_unlocked =
                (Returned False, [Error_not_locked], fs_refilled_unlocked))
     \<and> (\<forall>fs_v. mkdir ?H False fs_refilled_unlocked = Inr fs_v \<longrightarrow>
          (\<exists>ms n fs_l m fs_u.
             lock_folder tool [''tmp'', ''x''] ''secret1'' ''20260101_120000''
               ''2026-01-01T12:00:00'' fs_refilled_unlocked =
               (Returned True, ms @ [Locked_successfully n], fs_l)
             \<and> load_registry (lock_status_file tool) fs_l =
                 Inr (AList.update [''tmp'', ''x'']
                        \<lparr>hidden_path = ?H,
                         locked_at = ''2026-01-01T12:00:00'', items_count = n\<rparr> [])
             \<and> unlock_folder tool [''tmp'', ''x''] ''secret1'' fs_l =
                 (Returned True, [Unlocked_successfully m], fs_u)
             \<and> fs_u = fs_refilled_unlocked
             \<and> children fs_u [''tmp'', ''x''] = children fs_refilled_unlocked [''tmp'', ''x'']
             \<and> load_registry (lock_status_file tool) fs_u = Inr []
             \<and> [''tmp'', ''x''] \<notin> fst ` set ([] :: registry)))"
  proof (rule lock_unlock_round_trip [where c = user_cred and d = "[''opt'', ''tool'']"])
    show "wf_fs fs_refilled_unlocked" by (rule wf_fs_refilled_unlocked)
    show "tool = FolderLock_paths [''opt'', ''tool'']" by (simp add: tool_def)
    show "is_dir fs_refilled_unlocked [''tmp'', ''x'']"
      by (simp add: fs_eval fs_refilled_unlocked_def fs_refilled_def fs_locked_def)
    show "[''tmp'', ''x''] \<noteq> config_dir tool" by (simp add: tool_def FolderLock_paths_def)
    show "load_credential (user_hash_file tool) fs_refilled_unlocked = Inr user_cred"
      by (simp add: fs_eval fs_refilled_unlocked_def fs_refilled_def fs_locked_def)
    show "verify_password ''secret1'' user_cred" by (rule user_cred_ok)
    show "verify_password ''secret1'' user_cred" by (rule user_cred_ok)
    show "load_registry (lock_status_file tool) fs_refilled_unlocked = Inr []"
      by (simp add: fs_eval fs_refilled_unlocked_def fs_refilled_def fs_locked_def)
    show "[''tmp'', ''x''] \<notin> fst ` set ([] :: registry)" by simp
  qed
  from this [THEN conjunct1, rule_format, OF mk', THEN conjunct1]
  have r: "lock_folder tool [''tmp'', ''x''] ''secret1'' ''20260101_120000''
      ''2026-01-01T12:00:00'' fs_refilled_unlocked = (Raised FileExistsError, [], fs_refilled_unlocked)" .
  have "children fs_locked [''tmp'', ''x''] = []"
    "children fs_setup [''tmp'', ''x''] = [''a.txt'', ''b.txt'']"
    "load_registry (lock_status_file tool) fs_setup = Inr []"
    by (simp_all add: fs_eval fs_locked_def fs_setup_def)
  with lk u r show ?thesis by blast
qed

text \<open>
  Claim C1 as stated fails for one directory: \<^verbatim>\<open>lock_folder\<close> accepts the tool's own
  configuration directory \<open>/opt/tool/.config\<close> and moves the credential files and the
  registry file into the vault (the vault directory itself cannot be moved). After that
  \<^verbatim>\<open>unlock_folder\<close> finds no user credential, reports that the system is not configured
  for the right password as for any other, and restores nothing: the directory holds two
  entries instead of its four, and the registry keeps the entry.
\<close>

theorem lock_unlock_config_dir_not_restored:
  "lock_folder tool [''opt'', ''tool'', ''.config''] ''secret1'' ''20260101_120000''
     ''2026-01-01T12:00:00'' fs_setup =
     (Returned True, [Warning_could_not_move ''.locked_data'', Locked_successfully 3],
      fs_config_locked)
   \<and> unlock_folder tool [''opt'', ''tool'', ''.config''] ''secret1'' fs_config_locked =
       (Returned False, [Error_not_configured], fs_config_locked)
   \<and> children fs_setup [''opt'', ''tool'', ''.config''] =
       [''.locked_data'', ''admin_hash.json'', ''user_hash.json'', ''lock_status.json'']
   \<and> children fs_config_locked [''opt'', ''tool'', ''.config''] =
       [''.locked_data'', ''lock_status.json'']
   \<and> load_registry (lock_status_file tool) fs_config_locked =
       Inr [([''opt'', ''tool'', ''.config''], entry_config)]"
proof -
  have "lock_folder tool [''opt'', ''tool'', ''.config''] ''secret1'' ''20260101_120000''
     ''2026-01-01T12:00:00'' fs_setup =
     (Returned True, [Warning_could_not_move ''.locked_data'', Locked_successfully 3],
      fs_config_locked)"
    by (simp add: lock_folder_def fs_eval fs_setup_def fs_config_locked_def entry_config_def
        user_cred_ok)
  moreover have "unlock_folder tool [''opt'', ''tool'', ''.config''] ''secret1'' fs_config_locked =
       (Returned False, [Error_not_configured], fs_config_locked)"
    by (simp add: unlock_folder_def fs_eval fs_config_locked_def entry_config_def)
  moreover have "children fs_setup [''opt'', ''tool'', ''.config''] =
       [''.locked_data'', ''admin_hash.json'', ''user_hash.json'', ''lock_status.json'']"
    by (simp add: fs_eval fs_setup_def)
  moreover have "children fs_config_locked [''opt'', ''tool'', ''.config''] =
       [''.locked_data'', ''lock_status.json'']"
    by (simp add: fs_eval fs_config_locked_def)
  moreover have "load_registry (lock_status_file tool) fs_config_locked =
       Inr [([''opt'', ''tool'', ''.config''], entry_config)]"
    by (simp add: fs_eval fs_config_locked_def)
  ultimately show ?thesis by blast
qed

end
